theory Spec2Isabelle
  imports Main "HOL-Library.Monad_Syntax"
begin

section \<open>JavaScript values and string helpers\<close>

text \<open>
  Strings are lists of code units. An optional property (\<open>x?: string\<close>, \<open>string | null\<close>)
  is an \<open>option\<close>; JavaScript treats both the absent value and the empty string as
  falsy, which \<open>truthy\<close> writes out.
\<close>

definition truthy :: "string option \<Rightarrow> bool" where
  "truthy s = (case s of None \<Rightarrow> False | Some v \<Rightarrow> v \<noteq> [])"

text \<open>
  The white space that \<open>String.prototype.trim\<close> and the regular expression class
  \<open>\s\<close> remove, restricted to the code units below 256: tab, line feed, vertical tab,
  form feed, carriage return, space and no-break space.
\<close>

definition js_space :: "char \<Rightarrow> bool" where
  "js_space c = ((of_char c :: nat) \<in> {9, 10, 11, 12, 13, 32, 160})"

definition trimStart :: "string \<Rightarrow> string" where
  "trimStart s = dropWhile js_space s"

definition trimEnd :: "string \<Rightarrow> string" where
  "trimEnd s = rev (dropWhile js_space (rev s))"

definition trim :: "string \<Rightarrow> string" where
  "trim s = trimEnd (trimStart s)"

text \<open>Decimal rendering of a non-negative integer, as a template literal prints it.\<close>

definition digit_char :: "nat \<Rightarrow> char" where
  "digit_char d = ''0123456789'' ! d"

fun show_nat :: "nat \<Rightarrow> string" where
  "show_nat n = (if n < 10 then [digit_char n] else show_nat (n div 10) @ [digit_char (n mod 10)])"

declare show_nat.simps [simp del]

text \<open>
  A property read \<open>obj[key]\<close> on an object literal first looks at the object's own
  properties and then at the members every object inherits from \<open>Object.prototype\<close>.
  The inherited members are functions (and, for \<open>__proto__\<close>, the prototype object
  itself): none of them is a string and all of them are truthy.
\<close>

datatype JsValue = JsString string | JsInherited string

definition object_prototype_keys :: "string list" where
  "object_prototype_keys =
     [''constructor'', ''__defineGetter__'', ''__defineSetter__'', ''hasOwnProperty'',
      ''__lookupGetter__'', ''__lookupSetter__'', ''isPrototypeOf'', ''propertyIsEnumerable'',
      ''toString'', ''valueOf'', ''__proto__'', ''toLocaleString'']"

definition js_get :: "(string \<times> string) list \<Rightarrow> string \<Rightarrow> JsValue option" where
  "js_get obj key =
     (case map_of obj key of
        Some v \<Rightarrow> Some (JsString v)
      | None \<Rightarrow> if key \<in> set object_prototype_keys then Some (JsInherited key) else None)"

fun js_truthy :: "JsValue option \<Rightarrow> bool" where
  "js_truthy None = False"
| "js_truthy (Some (JsString s)) = (s \<noteq> [])"
| "js_truthy (Some (JsInherited k)) = True"

text \<open>\<open>a || b\<close> on a looked-up value with a string default.\<close>

definition js_or :: "JsValue option \<Rightarrow> string \<Rightarrow> JsValue" where
  "js_or v d = (if js_truthy v then the v else JsString d)"


section \<open>Text utilities\<close>

record TruncateResult =
  rtext :: string
  truncated :: bool

definition truncation_marker :: string where
  "truncation_marker = [CHR 0x0A, CHR 0x0A] @ ''[... truncated ...]''"

text \<open>
  The character read \<open>text[i]\<close>: out of range it is \<open>undefined\<close>, which equals no
  character.
\<close>

definition char_at :: "string \<Rightarrow> nat \<Rightarrow> char option" where
  "char_at s i = (if i < length s then Some (s ! i) else None)"

definition is_break_char :: "char option \<Rightarrow> bool" where
  "is_break_char c = (c = Some CHR '' '' \<or> c = Some (CHR 0x0A) \<or> c = Some (CHR 0x09))"

text \<open>
  The look-back loop \<open>for (let i = maxLength; i > lookBackLimit; i--)\<close>: the result is
  the index at which the loop breaks, or \<open>None\<close> when it runs to its end.
\<close>

fun look_back :: "string \<Rightarrow> nat \<Rightarrow> nat \<Rightarrow> nat option" where
  "look_back s lookBackLimit 0 = None"
| "look_back s lookBackLimit (Suc j) =
     (if Suc j > lookBackLimit
      then (if is_break_char (char_at s (Suc j)) then Some (Suc j)
            else look_back s lookBackLimit j)
      else None)"

definition truncateText :: "string \<Rightarrow> nat \<Rightarrow> TruncateResult" where
  "truncateText s maxLength =
     (if s = [] \<or> length s \<le> maxLength then \<lparr>rtext = s, truncated = False\<rparr>
      else
        let lookBackLimit = max 0 (maxLength - 100);
            breakPoint = (case look_back s lookBackLimit maxLength of
                            Some i \<Rightarrow> i | None \<Rightarrow> maxLength)
        in \<lparr>rtext = trim (take breakPoint s) @ truncation_marker, truncated = True\<rparr>)"

definition exceedsMaxLength :: "string option \<Rightarrow> nat \<Rightarrow> bool" where
  "exceedsMaxLength s maxLength =
     (case s of None \<Rightarrow> False | Some v \<Rightarrow> v \<noteq> [] \<and> length v > maxLength)"

text \<open>The indices the look-back loop inspects.\<close>

definition in_window :: "nat \<Rightarrow> nat \<Rightarrow> bool" where
  "in_window maxLength i = (maxLength - 100 < i \<and> i \<le> maxLength)"

text \<open>
  The index at which \<open>truncateText\<close> slices a text longer than the limit: the value
  of \<open>breakPoint\<close> after the look-back loop.
\<close>

definition cut_point :: "string \<Rightarrow> nat \<Rightarrow> nat" where
  "cut_point s maxLength =
     (case look_back s (max 0 (maxLength - 100)) maxLength of
        Some i \<Rightarrow> i | None \<Rightarrow> maxLength)"

text \<open>
  The rule of the cut as the specification words it: when the text has white space (any
  character that \<open>trim\<close> removes) at an index within 100 characters before the limit,
  the cut point is such an index.
\<close>

definition white_space_at :: "string \<Rightarrow> nat \<Rightarrow> bool" where
  "white_space_at s i = (case char_at s i of None \<Rightarrow> False | Some c \<Rightarrow> js_space c)"

definition whitespace_cut_claim :: "string \<Rightarrow> nat \<Rightarrow> bool" where
  "whitespace_cut_claim s maxLength =
     ((\<exists>i. maxLength - 100 \<le> i \<and> i \<le> maxLength \<and> white_space_at s i) \<longrightarrow>
        maxLength - 100 \<le> cut_point s maxLength \<and> cut_point s maxLength \<le> maxLength
        \<and> white_space_at s (cut_point s maxLength))"

text \<open>A text whose only white space is a carriage return.\<close>

definition cr_text :: string where
  "cr_text = ''ab'' @ [CHR 0x0D] @ ''cdefgh''"

text \<open>A text whose only white space is a space at index 1.\<close>

definition edge_text :: string where
  "edge_text = ''a '' @ replicate 110 (CHR ''x'')"


section \<open>Source records\<close>

text \<open>
  \<open>ArkeManifest\<close> and \<open>PinaxMetadata\<close> as the type definitions declare them. The fields
  of \<open>PinaxMetadata\<close> carry the prefix \<open>pinax_\<close>. A value that is either one string or
  an array of strings (\<open>creator\<close>, \<open>place\<close>) is a \<open>OneOrMany\<close>.
\<close>

record ArkeManifest =
  pi :: string
  ver :: nat
  ts :: string
  manifest_cid :: string
  prev_cid :: "string option"
  components :: "(string \<times> string) list"
  children_pi :: "string list option"
  parent_pi :: "string option"
  manifest_note :: "string option"

datatype OneOrMany = One string | Many "string list"

record PinaxMetadata =
  pinax_id :: string
  pinax_title :: string
  pinax_type :: string
  pinax_creator :: OneOrMany
  pinax_institution :: string
  pinax_created :: string
  pinax_access_url :: string
  pinax_language :: "string option"
  pinax_subjects :: "string list option"
  pinax_description :: "string option"
  pinax_source :: "string option"
  pinax_rights :: "string option"
  pinax_place :: "OneOrMany option"

record ExportConfig =
  apiUrl :: string
  ipfsGateway :: string
  cdnUrl :: string
  includeOcr :: bool
  cheimarrosMode :: string
  validate :: bool
  verbose :: bool


section \<open>The normalized document\<close>

text \<open>
  The shapes of the MODS structures, read off the object literals that build them. An
  optional key is an \<open>option\<close>. Field names that several structures share carry a
  prefix naming the structure. The keys \<open>physicalDescription\<close>, \<open>tableOfContents\<close>
  and \<open>targetAudience\<close> of the document are never given a value and are left out.
\<close>

record ModsTitleInfo =
  title :: string
  title_type :: "string option"

record ModsRole =
  roleTerm :: string
  role_type :: string

record ModsName =
  name_type :: string
  nameParts :: "string list"
  roles :: "ModsRole list"
  isSubject :: bool

record ModsOriginInfo =
  dateCreated :: string
  encoding :: string
  keyDate :: bool

record ModsLanguage =
  languageTerm :: JsValue
  lang_type :: string
  lang_authority :: string

record ModsNote =
  note_text :: string
  note_type :: string
  note_displayLabel :: string

record ModsSubject =
  topics :: "string list option"
  geographic :: "string list option"
  subject_names :: "ModsName list option"

record ModsIdentifier =
  id_value :: string
  id_type :: string
  id_displayLabel :: string

record ModsUrl =
  url :: string
  url_usage :: "string option"
  url_access :: "string option"
  url_displayLabel :: string

record ModsLocation =
  physicalLocation :: "string option"
  urls :: "ModsUrl list"

record ModsAccessCondition =
  ac_text :: string
  ac_type :: string

record ModsRecordInfo =
  recordContentSource :: string
  recordIdentifier :: "string option"
  recordIdentifierSource :: "string option"
  recordCreationDate :: string
  recordOrigin :: "string option"
  descriptionStandard :: string
  languageOfCataloging :: "ModsLanguage option"

record ModsRelatedItem =
  ri_type :: string
  ri_displayLabel :: string
  ri_identifiers :: "ModsIdentifier list"
  ri_location :: "ModsLocation option"
  ri_notes :: "ModsNote list option"

record ModsDocument =
  titleInfo :: "ModsTitleInfo list"
  names :: "ModsName list"
  typeOfResource :: "JsValue option"
  genre :: "string list"
  originInfo :: "ModsOriginInfo option"
  language :: "ModsLanguage list option"
  abstract :: "string option"
  mods_notes :: "ModsNote list"
  subjects :: "ModsSubject list"
  classification :: "string list"
  relatedItems :: "ModsRelatedItem list"
  identifiers :: "ModsIdentifier list"
  location :: ModsLocation
  accessConditions :: "ModsAccessCondition list"
  recordInfo :: ModsRecordInfo


section \<open>The PINAX to MODS crosswalk\<close>

definition mapTitle :: "PinaxMetadata \<Rightarrow> ModsTitleInfo list" where
  "mapTitle pinax = [\<lparr>title = pinax_title pinax, title_type = None\<rparr>]"

definition as_array :: "OneOrMany \<Rightarrow> string list" where
  "as_array v = (case v of One s \<Rightarrow> [s] | Many xs \<Rightarrow> xs)"

definition mapCreators :: "PinaxMetadata \<Rightarrow> ModsName list" where
  "mapCreators pinax =
     map (\<lambda>creator. \<lparr>name_type = ''personal'', nameParts = [creator],
                      roles = [\<lparr>roleTerm = ''creator'', role_type = ''text''\<rparr>],
                      isSubject = False\<rparr>)
         (as_array (pinax_creator pinax))
     @ [\<lparr>name_type = ''corporate'', nameParts = [pinax_institution pinax],
         roles = [\<lparr>roleTerm = ''repository'', role_type = ''text''\<rparr>],
         isSubject = False\<rparr>]"

definition typeMap :: "(string \<times> string) list" where
  "typeMap =
     [(''Text'', ''text''),
      (''Image'', ''still image''),
      (''StillImage'', ''still image''),
      (''MovingImage'', ''moving image''),
      (''Sound'', ''sound recording''),
      (''Dataset'', ''software, multimedia''),
      (''InteractiveResource'', ''software, multimedia''),
      (''Software'', ''software, multimedia''),
      (''Collection'', ''mixed material''),
      (''PhysicalObject'', ''three dimensional object''),
      (''Event'', ''text''),
      (''Service'', ''text'')]"

definition mapResourceType :: "string \<Rightarrow> JsValue" where
  "mapResourceType dcmiType = js_or (js_get typeMap dcmiType) ''text''"

definition mapOriginInfo :: "PinaxMetadata \<Rightarrow> ModsOriginInfo" where
  "mapOriginInfo pinax =
     \<lparr>dateCreated = pinax_created pinax, encoding = ''w3cdtf'', keyDate = True\<rparr>"

definition langMap :: "(string \<times> string) list" where
  "langMap =
     [(''en'', ''eng''), (''en-US'', ''eng''), (''en-GB'', ''eng''), (''es'', ''spa''),
      (''es-MX'', ''spa''), (''fr'', ''fre''), (''de'', ''ger''), (''it'', ''ita''),
      (''pt'', ''por''), (''zh'', ''chi''), (''ja'', ''jpn''), (''ar'', ''ara''),
      (''ru'', ''rus'')]"

definition mapLanguage :: "PinaxMetadata \<Rightarrow> ModsLanguage list option" where
  "mapLanguage pinax =
     (if \<not> truthy (pinax_language pinax) then None
      else
        let lang = the (pinax_language pinax);
            iso6392b = js_or (js_get langMap lang) (take 3 lang)
        in Some [\<lparr>languageTerm = iso6392b, lang_type = ''code'',
                   lang_authority = ''iso639-2b''\<rparr>])"

definition mapSubjects :: "PinaxMetadata \<Rightarrow> ModsSubject list" where
  "mapSubjects pinax =
     (case pinax_subjects pinax of
        None \<Rightarrow> []
      | Some ss \<Rightarrow>
          map (\<lambda>topic. \<lparr>topics = Some [topic], geographic = None, subject_names = None\<rparr>) ss)
     @ (case pinax_place pinax of
          None \<Rightarrow> []
        | Some (One s) \<Rightarrow>
            (if s = [] then []
             else [\<lparr>topics = None, geographic = Some [s], subject_names = None\<rparr>])
        | Some (Many ps) \<Rightarrow>
            map (\<lambda>place. \<lparr>topics = None, geographic = Some [place], subject_names = None\<rparr>) ps)"

definition arkeUrl :: "PinaxMetadata \<Rightarrow> ArkeManifest \<Rightarrow> string" where
  "arkeUrl pinax manifest =
     (if pinax_access_url pinax = ''PLACEHOLDER''
      then ''https://arke.institute/'' @ ArkeManifest.pi manifest
      else pinax_access_url pinax)"

definition mapIdentifiers :: "PinaxMetadata \<Rightarrow> ArkeManifest \<Rightarrow> ModsIdentifier list" where
  "mapIdentifiers pinax manifest =
     [\<lparr>id_value = pinax_id pinax, id_type = ''local'', id_displayLabel = ''PINAX ID''\<rparr>,
      \<lparr>id_value = ArkeManifest.pi manifest, id_type = ''arke-pi'',
        id_displayLabel = ''Arke Persistent Identifier''\<rparr>,
      \<lparr>id_value = (if pinax_access_url pinax = ''PLACEHOLDER''
                    then ''https://arke.institute/'' @ ArkeManifest.pi manifest
                    else pinax_access_url pinax),
        id_type = ''uri'', id_displayLabel = ''Arke URI''\<rparr>]"

definition mapLocation :: "ExportConfig \<Rightarrow> PinaxMetadata \<Rightarrow> ArkeManifest \<Rightarrow> ModsLocation" where
  "mapLocation config pinax manifest =
     \<lparr>physicalLocation = Some (pinax_institution pinax),
      urls = [\<lparr>url = arkeUrl pinax manifest, url_usage = Some ''primary display'',
                url_access = Some ''object in context'', url_displayLabel = ''View in Arke''\<rparr>,
              \<lparr>url = ipfsGateway config @ ''/ipfs/'' @ manifest_cid manifest,
                url_usage = None, url_access = None, url_displayLabel = ''IPFS Manifest''\<rparr>]\<rparr>"

definition mapAccessConditions :: "PinaxMetadata \<Rightarrow> ModsAccessCondition list" where
  "mapAccessConditions pinax =
     (if \<not> truthy (pinax_rights pinax) then []
      else [\<lparr>ac_text = the (pinax_rights pinax), ac_type = ''use and reproduction''\<rparr>])"

text \<open>The bullet U+2022 of the version note, as its UTF-8 bytes.\<close>

definition bullet :: string where
  "bullet = [CHR 0xE2, CHR 0x80, CHR 0xA2]"

definition mapNotes :: "PinaxMetadata \<Rightarrow> ArkeManifest \<Rightarrow> string option \<Rightarrow> ModsNote list" where
  "mapNotes pinax manifest description =
     [\<lparr>note_text = ''Version '' @ show_nat (ver manifest) @ '' '' @ bullet
                    @ '' Manifest CID: '' @ manifest_cid manifest,
       note_type = ''version'', note_displayLabel = ''Arke Version''\<rparr>]
     @ (if truthy description \<and> truthy (pinax_description pinax)
           \<and> description \<noteq> pinax_description pinax
        then [\<lparr>note_text = the (pinax_description pinax), note_type = ''summary'',
                note_displayLabel = ''PINAX Description''\<rparr>]
        else [])
     @ (if truthy (pinax_source pinax)
        then [\<lparr>note_text = the (pinax_source pinax), note_type = ''source'',
                note_displayLabel = ''Source System''\<rparr>]
        else [])"

definition mapRecordInfo :: "ArkeManifest \<Rightarrow> ModsRecordInfo" where
  "mapRecordInfo manifest =
     \<lparr>recordContentSource = ''Arke Institute'',
      recordIdentifier = Some (ArkeManifest.pi manifest),
      recordIdentifierSource = Some ''arke-pi'',
      recordCreationDate = ts manifest,
      recordOrigin = None,
      descriptionStandard = ''pinax'',
      languageOfCataloging = None\<rparr>"

definition crosswalk ::
  "ExportConfig \<Rightarrow> PinaxMetadata \<Rightarrow> ArkeManifest \<Rightarrow> string option \<Rightarrow> ModsDocument" where
  "crosswalk config pinax manifest description =
     \<lparr>titleInfo = mapTitle pinax,
      names = mapCreators pinax,
      typeOfResource = Some (mapResourceType (pinax_type pinax)),
      genre = [],
      originInfo = Some (mapOriginInfo pinax),
      language = mapLanguage pinax,
      abstract = (if truthy description then description else pinax_description pinax),
      mods_notes = mapNotes pinax manifest description,
      subjects = mapSubjects pinax,
      classification = [],
      relatedItems = [],
      identifiers = mapIdentifiers pinax manifest,
      location = mapLocation config pinax manifest,
      accessConditions = mapAccessConditions pinax,
      recordInfo = mapRecordInfo manifest\<rparr>"


section \<open>The exporter's document assembly\<close>

text \<open>
  \<open>generateMinimalMods\<close> stamps the record with the current date; \<open>today\<close> is that
  date as \<open>new Date().toISOString().split('T')[0]\<close> renders it.
\<close>

definition generateMinimalMods :: "string \<Rightarrow> ArkeManifest \<Rightarrow> ModsDocument" where
  "generateMinimalMods today manifest =
     \<lparr>titleInfo = [\<lparr>title = ''[Incomplete Record: '' @ ArkeManifest.pi manifest @ '']'',
                     title_type = Some ''alternative''\<rparr>],
      names = [],
      typeOfResource = None,
      genre = [],
      originInfo = None,
      language = Some [],
      abstract = None,
      mods_notes =
        [\<lparr>note_text = ''Incomplete: PINAX metadata unavailable at time of export. This is a minimal record generated from manifest data only.'',
          note_type = ''metadata-status'', note_displayLabel = ''Metadata Status''\<rparr>,
         \<lparr>note_text = ''To complete this record, ensure pinax.json component exists for PI ''
                       @ ArkeManifest.pi manifest @ '' and re-export.'',
          note_type = ''metadata-remediation'', note_displayLabel = ''Remediation Note''\<rparr>],
      subjects = [],
      classification = [],
      relatedItems = [],
      identifiers =
        [\<lparr>id_value = ArkeManifest.pi manifest, id_type = ''arke-pi'',
          id_displayLabel = ''Arke Persistent Identifier''\<rparr>,
         \<lparr>id_value = manifest_cid manifest, id_type = ''arke-manifest-cid'',
          id_displayLabel = ''Manifest CID''\<rparr>],
      location =
        \<lparr>physicalLocation = None,
         urls = [\<lparr>url = ''https://api.arke.institute/manifest/'' @ ArkeManifest.pi manifest,
                   url_usage = Some ''primary'', url_access = None,
                   url_displayLabel = ''Arke Manifest API''\<rparr>]\<rparr>,
      accessConditions = [],
      recordInfo =
        \<lparr>recordContentSource = ''Arke Institute'',
         recordIdentifier = None,
         recordIdentifierSource = None,
         recordCreationDate = today,
         recordOrigin = Some ''Generated by arke-mods-export-worker with graceful degradation (missing PINAX)'',
         descriptionStandard = ''mods'',
         languageOfCataloging =
           Some \<lparr>languageTerm = JsString ''eng'', lang_type = ''code'',
                  lang_authority = ''iso639-2b''\<rparr>\<rparr>\<rparr>"

text \<open>
  The outcome of the cheimarros processor and of the component linker, which
  \<open>ModsExporter.export\<close> merges into the document after the crosswalk step.
\<close>

record CheirResult =
  cheir_subjects :: "ModsSubject list"
  cheir_names :: "ModsName list"
  cheir_notes :: "ModsNote list"

record Linked =
  refJsonItems :: "ModsRelatedItem list"
  parentItem :: "ModsRelatedItem option"
  childItems :: "ModsRelatedItem list"
  childNote :: "ModsNote option"
  otherItems :: "ModsRelatedItem list"
  componentNote :: ModsNote

text \<open>Step 3 of \<open>export\<close>: the crosswalk, or the minimal record when \<open>pinax\<close> is absent.\<close>

definition export_step3 ::
  "ExportConfig \<Rightarrow> string \<Rightarrow> PinaxMetadata option \<Rightarrow> ArkeManifest \<Rightarrow> string option
     \<Rightarrow> ModsDocument \<times> bool" where
  "export_step3 config today pinax manifest description =
     (case pinax of
        None \<Rightarrow> (generateMinimalMods today manifest, True)
      | Some p \<Rightarrow> (crosswalk config p manifest description, False))"

text \<open>
  Step 4: the cheimarros result, present when a graph was fetched and the mode is not
  \<open>skip\<close>, adds subjects, subject names and notes.
\<close>

definition export_step4 :: "CheirResult option \<Rightarrow> ModsDocument \<Rightarrow> ModsDocument" where
  "export_step4 cheirResult mods =
     (case cheirResult of
        None \<Rightarrow> mods
      | Some r \<Rightarrow>
          mods\<lparr>subjects := subjects mods @ cheir_subjects r
                   @ map (\<lambda>name. \<lparr>topics = None, geographic = None, subject_names = Some [name]\<rparr>)
                       (filter isSubject (cheir_names r)),
                mods_notes := mods_notes mods @ cheir_notes r\<rparr>)"

text \<open>Step 5: the linker's related items and inventory notes.\<close>

definition export_step5 :: "Linked \<Rightarrow> ModsDocument \<Rightarrow> ModsDocument" where
  "export_step5 l mods =
     mods\<lparr>relatedItems := relatedItems mods @ refJsonItems l
              @ (case parentItem l of None \<Rightarrow> [] | Some p \<Rightarrow> [p])
              @ childItems l @ otherItems l,
           mods_notes := mods_notes mods
              @ (case childNote l of None \<Rightarrow> [] | Some n \<Rightarrow> [n])
              @ [componentNote l]\<rparr>"

text \<open>The document handed to the XML generator.\<close>

definition export_document ::
  "ExportConfig \<Rightarrow> string \<Rightarrow> PinaxMetadata option \<Rightarrow> ArkeManifest \<Rightarrow> string option
     \<Rightarrow> CheirResult option \<Rightarrow> Linked \<Rightarrow> ModsDocument" where
  "export_document config today pinax manifest description cheirResult l =
     export_step5 l (export_step4 cheirResult
       (fst (export_step3 config today pinax manifest description)))"


section \<open>The streaming collection writer\<close>

text \<open>
  \<open>EntityNode\<close> is the traversal node handed to the writer with every record.
\<close>

record EntityNode =
  pi :: string
  depth :: nat
  parentPI :: "string option"
  pathFromRoot :: "string list"

text \<open>
  The writer's state. \<open>stream\<close> is the sink: \<open>None\<close> while no stream has been created,
  otherwise the chunks written to it so far, in order. \<open>writeModsCalls\<close> is not a field
  of the class: it counts the calls of \<open>writeMods\<close>, so that statements about the
  number of calls can be made.
\<close>

record ModsCollectionWriter =
  stream :: "string list option"
  isOpen :: bool
  writeModsCalls :: nat

definition new_writer :: ModsCollectionWriter where
  "new_writer = \<lparr>stream = None, isOpen = False, writeModsCalls = 0\<rparr>"

definition newline :: string where
  "newline = [CHR 0x0A]"

text \<open>
  \<open>write\<close> (here \<open>write_data\<close>) rejects when there is no stream and otherwise hands the data to the stream.
  The promise resolves at once or on the stream's \<open>drain\<close> event; either way the chunk
  has been appended.
\<close>

definition write_data :: "string \<Rightarrow> ModsCollectionWriter \<Rightarrow> (string + unit) \<times> ModsCollectionWriter" where
  "write_data data w =
     (case stream w of
        None \<Rightarrow> (Inl ''Stream not initialized'', w)
      | Some chunks \<Rightarrow> (Inr (), w\<lparr>stream := Some (chunks @ [data])\<rparr>))"

text \<open>A sequence of awaited writes: the first rejection ends it.\<close>

fun write_each :: "string list \<Rightarrow> ModsCollectionWriter \<Rightarrow> (string + unit) \<times> ModsCollectionWriter" where
  "write_each [] w = (Inr (), w)"
| "write_each (d # ds) w =
     (case write_data d w of
        (Inl e, w') \<Rightarrow> (Inl e, w')
      | (Inr u, w') \<Rightarrow> write_each ds w')"

definition collection_header :: "string list" where
  \<open>collection_header =
     [''<?xml version="1.0" encoding="UTF-8"?>'' @ newline,
      ''<modsCollection xmlns="http://www.loc.gov/mods/v3" '',
      ''xmlns:xsi="http://www.w3.org/2001/XMLSchema-instance" '',
      ''xsi:schemaLocation="http://www.loc.gov/mods/v3 https://www.loc.gov/standards/mods/mods-3-8.xsd">'' @ newline]\<close>

text \<open>
  \<open>open\<close> creates the stream (a fresh, empty sink for the output path), writes the
  header and only then sets \<open>isOpen\<close>.
\<close>

definition open_writer :: "string \<Rightarrow> ModsCollectionWriter \<Rightarrow> (string + unit) \<times> ModsCollectionWriter" where
  "open_writer outputPath w =
     (case write_each collection_header (w\<lparr>stream := Some []\<rparr>) of
        (Inl e, w') \<Rightarrow> (Inl e, w')
      | (Inr u, w') \<Rightarrow> (Inr (), w'\<lparr>isOpen := True\<rparr>))"

text \<open>
  The regular expression \<open><\?xml[^>]*\?>\s*\<close> matched at the start of a string: the
  length of the match. After \<open><?xml\<close> the class \<open>[^>]*\<close> cannot cross a \<open>>\<close>, so
  the closing \<open>?>\<close> ends at the first \<open>>\<close> and the character before it is \<open>?\<close>.
\<close>

definition xml_decl_match :: "string \<Rightarrow> nat option" where
  "xml_decl_match s =
     (if take 5 s = ''<?xml'' then
        let r = drop 5 s;
            pre = takeWhile (\<lambda>c. c \<noteq> CHR ''>'') r;
            post = dropWhile (\<lambda>c. c \<noteq> CHR ''>'') r
        in if post \<noteq> [] \<and> pre \<noteq> [] \<and> last pre = CHR ''?''
           then Some (5 + length pre + 1 + length (takeWhile js_space (tl post)))
           else None
      else None)"

text \<open>\<open>xml.replace(/<\?xml[^>]*\?>\s*/, '')\<close>: the leftmost match is removed.\<close>

fun strip_xml_declaration :: "string \<Rightarrow> string" where
  "strip_xml_declaration [] = []"
| "strip_xml_declaration (c # cs) =
     (case xml_decl_match (c # cs) of
        Some n \<Rightarrow> drop n (c # cs)
      | None \<Rightarrow> c # strip_xml_declaration cs)"

text \<open>\<open>s.indexOf(pat)\<close>, with \<open>None\<close> for \<open>-1\<close>.\<close>

fun indexOf :: "string \<Rightarrow> string \<Rightarrow> nat option" where
  "indexOf pat [] = (if pat = [] then Some 0 else None)"
| "indexOf pat (c # cs) =
     (if take (length pat) (c # cs) = pat then Some 0
      else map_option Suc (indexOf pat cs))"

text \<open>\<open>content.split('\n').join('\n  ')\<close>: every line feed is followed by two spaces.\<close>

definition indent_lines :: "string \<Rightarrow> string" where
  "indent_lines s = concat (map (\<lambda>c. if c = CHR 0x0A then newline @ ''  '' else [c]) s)"

definition extractModsElement :: "string \<Rightarrow> string + string" where
  "extractModsElement xml =
     (let content = strip_xml_declaration xml in
      case indexOf ''<mods'' content of
        None \<Rightarrow> Inl ''No <mods> element found in XML''
      | Some modsStart \<Rightarrow> Inr (''  '' @ trimEnd (indent_lines (drop modsStart content))))"

text \<open>
  \<open>modsXml.replace(/^(\s*<mods[^>]*)(>)/, `$1 ID="entity-${node.pi}"$2`)\<close>: the
  attribute goes in front of the first \<open>>\<close> of an opening tag at the start of the
  string. Here and below, the identifiers are taken to be free of the \<open>$\<close> patterns that
  \<open>replace\<close> would expand in its replacement string.
\<close>

definition add_id_attribute :: "string \<Rightarrow> string \<Rightarrow> string" where
  \<open>add_id_attribute modsXml p =
     (let ws = takeWhile js_space modsXml;
          r1 = dropWhile js_space modsXml
      in if take 5 r1 = ''<mods'' then
           let r2 = drop 5 r1;
               attrs = takeWhile (\<lambda>c. c \<noteq> CHR ''>'') r2;
               post = dropWhile (\<lambda>c. c \<noteq> CHR ''>'') r2
           in if post \<noteq> [] then ws @ ''<mods'' @ attrs @ '' ID="entity-'' @ p @ ''"'' @ post
              else modsXml
         else modsXml)\<close>

text \<open>
  The regular expression \<open>(\s*)<\/mods>\s*$\<close> matched at the start of a string: white
  space, the closing tag, and nothing but white space up to the end.
\<close>

definition close_tag_match :: "string \<Rightarrow> bool" where
  "close_tag_match s =
     (let r = dropWhile js_space s
      in take 7 r = ''</mods>'' \<and> list_all js_space (drop 7 r))"

text \<open>
  \<open>withId.replace(/(\s*)<\/mods>\s*$/, `\n${hierarchyNote}\n$1</mods>`)\<close>: the
  leftmost match is replaced.
\<close>

fun insert_before_close :: "string \<Rightarrow> string \<Rightarrow> string" where
  "insert_before_close hierarchyNote [] = []"
| "insert_before_close hierarchyNote (c # cs) =
     (if close_tag_match (c # cs)
      then newline @ hierarchyNote @ newline @ takeWhile js_space (c # cs) @ ''</mods>''
      else c # insert_before_close hierarchyNote cs)"

fun join :: "string \<Rightarrow> string list \<Rightarrow> string" where
  "join sep [] = []"
| "join sep [x] = x"
| "join sep (x # y # ys) = x @ sep @ join sep (y # ys)"

definition hierarchyNote :: "EntityNode \<Rightarrow> string" where
  \<open>hierarchyNote node =
     ''    <note type="hierarchy" displayLabel="Tree Position">''
     @ ''      depth: '' @ show_nat (depth node)
     @ (if truthy (parentPI node) then '', parent: '' @ the (parentPI node) else [])
     @ '', path: /'' @ join ''/'' (pathFromRoot node)
     @ ''    </note>''\<close>

definition addHierarchyMetadata :: "string \<Rightarrow> EntityNode \<Rightarrow> string" where
  "addHierarchyMetadata modsXml node =
     insert_before_close (hierarchyNote node) (add_id_attribute modsXml (pi node))"

definition writeMods ::
  "string \<Rightarrow> EntityNode \<Rightarrow> ModsCollectionWriter \<Rightarrow> (string + unit) \<times> ModsCollectionWriter" where
  "writeMods modsXml metadata w0 =
     (let w = w0\<lparr>writeModsCalls := writeModsCalls w0 + 1\<rparr> in
      if \<not> isOpen w \<or> stream w = None
      then (Inl ''Writer not open - call open() first'', w)
      else
        case extractModsElement modsXml of
          Inl e \<Rightarrow> (Inl e, w)
        | Inr modsElement \<Rightarrow>
            write_data (addHierarchyMetadata modsElement metadata @ newline) w)"

text \<open>
  \<open>close\<close> does nothing without a stream; otherwise it writes the footer and ends the
  stream. Neither \<open>stream\<close> nor \<open>isOpen\<close> is reset.
\<close>

definition close_writer :: "ModsCollectionWriter \<Rightarrow> (string + unit) \<times> ModsCollectionWriter" where
  "close_writer w =
     (if stream w = None then (Inr (), w)
      else write_data (''</modsCollection>'' @ newline) w)"


section \<open>The recursive exporter\<close>

text \<open>
  The two options the traversal reads, both counts and so natural numbers.
  \<open>includeParent\<close> and \<open>traversalMode\<close> are declared by \<open>RecursiveOptions\<close> but
  never read.
\<close>

record RecursiveOptions =
  maxDepth :: nat
  parallelBatchSize :: nat

text \<open>
  The world outside the process: what \<open>ArkeApiClient.fetchManifest\<close> and
  \<open>ModsExporter.export\<close> answer for an identifier, a rejection (\<open>Inl\<close> with the error
  message) or a value. \<open>export\<close> fetches over the network and serializes with an
  external library, so its answer is a parameter here; the document it assembles before
  serializing is modelled above.
\<close>

record World =
  fetchManifest :: "string \<Rightarrow> string + ArkeManifest"
  exporter_export :: "string \<Rightarrow> string + string"

record ProcessResult =
  children :: "string list option"
  isIncomplete :: bool
  incompleteReason :: "string option"

text \<open>The settled promise of one \<open>processEntity\<close> call, as \<open>Promise.allSettled\<close> reports it.\<close>

datatype Settled = Fulfilled ProcessResult | Rejected string

text \<open>One call of the \<open>onProgress\<close> callback.\<close>

record ProgressEvent =
  current :: nat
  total :: int
  currentPI :: string
  ev_depth :: nat
  phase :: string

text \<open>
  The local variables of \<open>traverseBFS\<close>, the two arrays it is handed, the writer, and
  \<open>progress\<close>, the calls made to \<open>options.onProgress\<close> in order: one per node
  handled, with the node's identifier and depth. The model records them whether or not a
  callback is supplied.
\<close>

record TraversalState =
  queue :: "EntityNode list"
  visited :: "string set"
  entityCount :: nat
  successCount :: nat
  incompleteCount :: nat
  errors :: "(string \<times> string) list"
  incompleteRecords :: "(string \<times> string) list"
  writer :: ModsCollectionWriter
  progress :: "ProgressEvent list"

text \<open>
  \<open>RecursiveExportResult\<close> without its clock and memory readings. Its fields carry the
  prefix \<open>r_\<close> where the traversal has a local variable of the same name.
\<close>

record RecursiveExportResult =
  totalEntities :: nat
  r_successCount :: nat
  errorCount :: nat
  r_incompleteCount :: nat
  outputPath :: string
  r_errors :: "(string \<times> string) list"
  r_incompleteRecords :: "(string \<times> string) list"

text \<open>
  \<open>extractCurrentLevel\<close> shifts the nodes of the first node's depth off the front of
  the queue; the model returns them together with what is left of the queue.
\<close>

definition extractCurrentLevel :: "EntityNode list \<Rightarrow> EntityNode list \<times> EntityNode list" where
  "extractCurrentLevel q =
     (case q of
        [] \<Rightarrow> ([], [])
      | first # _ \<Rightarrow>
          (takeWhile (\<lambda>n. depth n = depth first) q, dropWhile (\<lambda>n. depth n = depth first) q))"

definition processEntity ::
  "World \<Rightarrow> EntityNode \<Rightarrow> ModsCollectionWriter \<Rightarrow> (string \<times> string) list
     \<Rightarrow> Settled \<times> ModsCollectionWriter \<times> (string \<times> string) list" where
  "processEntity world node w ir =
     (case fetchManifest world (pi node) of
        Inl e \<Rightarrow> (Rejected e, w, ir)
      | Inr manifest \<Rightarrow>
          let hasPinax = truthy (map_of (components manifest) ''pinax.json'') in
          case exporter_export world (pi node) of
            Inl e \<Rightarrow> (Rejected e, w, ir)
          | Inr modsXml \<Rightarrow>
              (case writeMods modsXml node w of
                 (Inl e, w') \<Rightarrow> (Rejected e, w', ir)
               | (Inr u, w') \<Rightarrow>
                   (Fulfilled \<lparr>children = children_pi manifest,
                               isIncomplete = \<not> hasPinax,
                               incompleteReason =
                                 (if \<not> hasPinax then Some ''Missing PINAX metadata'' else None)\<rparr>,
                    w',
                    if \<not> hasPinax
                    then ir @ [(pi node, ''Missing PINAX metadata (pinax.json component not found)'')]
                    else ir)))"

text \<open>
  \<open>Promise.allSettled(batch.map(node => this.processEntity(...)))\<close>. The tasks of a
  batch run concurrently; the model runs them in batch order, one of the schedules.
  They touch the writer and \<open>incompleteRecords\<close> only, never the queue, the visited set
  or the counters.
\<close>

fun settle_all ::
  "World \<Rightarrow> EntityNode list \<Rightarrow> ModsCollectionWriter \<Rightarrow> (string \<times> string) list
     \<Rightarrow> Settled list \<times> ModsCollectionWriter \<times> (string \<times> string) list" where
  "settle_all world [] w ir = ([], w, ir)"
| "settle_all world (node # rest) w ir =
     (case processEntity world node w ir of
        (r, w', ir') \<Rightarrow>
          (case settle_all world rest w' ir' of
             (rs, w'', ir'') \<Rightarrow> (r # rs, w'', ir'')))"

text \<open>The loop over \<open>result.value.children\<close>.\<close>

fun enqueueChildren :: "EntityNode \<Rightarrow> string list \<Rightarrow> TraversalState \<Rightarrow> TraversalState" where
  "enqueueChildren node [] st = st"
| "enqueueChildren node (childPI # rest) st =
     enqueueChildren node rest
       (if childPI \<notin> visited st
        then st\<lparr>queue := queue st @
                   [\<lparr>pi = childPI, depth = depth node + 1, parentPI = Some (pi node),
                     pathFromRoot = pathFromRoot node @ [childPI]\<rparr>],
                 visited := insert childPI (visited st)\<rparr>
        else st)"

text \<open>The body of the loop over the settled results of a batch.\<close>

definition handleResult ::
  "RecursiveOptions \<Rightarrow> EntityNode \<Rightarrow> Settled \<Rightarrow> TraversalState \<Rightarrow> TraversalState" where
  "handleResult options node result st0 =
     (let st1 = st0\<lparr>entityCount := entityCount st0 + 1\<rparr>;
          st2 =
            (case result of
               Fulfilled v \<Rightarrow>
                 (let s1 = st1\<lparr>successCount := successCount st1 + 1\<rparr>;
                      s2 = (if isIncomplete v
                            then s1\<lparr>incompleteCount := incompleteCount s1 + 1\<rparr> else s1)
                  in if depth node < maxDepth options \<and> children v \<noteq> None
                     then enqueueChildren node (the (children v)) s2
                     else s2)
             | Rejected errorMsg \<Rightarrow> st1\<lparr>errors := errors st1 @ [(pi node, errorMsg)]\<rparr>)
      in st2\<lparr>progress := progress st2 @
                [\<lparr>current = entityCount st2, total = - 1, currentPI = pi node,
                  ev_depth = depth node, phase = ''writing''\<rparr>]\<rparr>)"

fun handle_results ::
  "RecursiveOptions \<Rightarrow> EntityNode list \<Rightarrow> Settled list \<Rightarrow> TraversalState \<Rightarrow> TraversalState" where
  "handle_results options (node # batch) (result # results) st =
     handle_results options batch results (handleResult options node result st)"
| "handle_results options batch results st = st"

text \<open>One batch: settle its tasks, then fold the results into the traversal state.\<close>

definition process_batch ::
  "RecursiveOptions \<Rightarrow> World \<Rightarrow> EntityNode list \<Rightarrow> TraversalState \<Rightarrow> TraversalState" where
  "process_batch options world batch st =
     (case settle_all world batch (writer st) (incompleteRecords st) of
        (results, w', ir') \<Rightarrow>
          handle_results options batch results (st\<lparr>writer := w', incompleteRecords := ir'\<rparr>))"

text \<open>
  The loop \<open>for (let i = 0; i < currentLevel.length; i += options.parallelBatchSize)\<close>.
  With a batch size of zero it never ends, which is the value \<open>None\<close>.
\<close>

partial_function (option) processLevel ::
  "RecursiveOptions \<Rightarrow> World \<Rightarrow> EntityNode list \<Rightarrow> nat \<Rightarrow> TraversalState
     \<Rightarrow> TraversalState option" where
  "processLevel options world currentLevel i st =
     (if i < length currentLevel
      then processLevel options world currentLevel (i + parallelBatchSize options)
             (process_batch options world
                (take (parallelBatchSize options) (drop i currentLevel)) st)
      else Some st)"

text \<open>The loop \<open>while (queue.length > 0)\<close>.\<close>

partial_function (option) traverseLoop ::
  "RecursiveOptions \<Rightarrow> World \<Rightarrow> TraversalState \<Rightarrow> TraversalState option" where
  "traverseLoop options world st =
     (if queue st \<noteq> []
      then
        Option.bind
          (processLevel options world (fst (extractCurrentLevel (queue st))) 0
             (st\<lparr>queue := snd (extractCurrentLevel (queue st))\<rparr>))
          (traverseLoop options world)
      else Some st)"

definition root_node :: "string \<Rightarrow> EntityNode" where
  "root_node rootPI = \<lparr>pi = rootPI, depth = 0, parentPI = None, pathFromRoot = [rootPI]\<rparr>"

definition initial_state ::
  "string \<Rightarrow> (string \<times> string) list \<Rightarrow> (string \<times> string) list \<Rightarrow> ModsCollectionWriter
     \<Rightarrow> TraversalState" where
  "initial_state rootPI errs ir w =
     \<lparr>queue = [root_node rootPI], visited = {rootPI}, entityCount = 0, successCount = 0,
      incompleteCount = 0, errors = errs, incompleteRecords = ir, writer = w, progress = []\<rparr>"

definition traverseBFS ::
  "World \<Rightarrow> string \<Rightarrow> RecursiveOptions \<Rightarrow> (string \<times> string) list \<Rightarrow> (string \<times> string) list
     \<Rightarrow> ModsCollectionWriter \<Rightarrow> TraversalState option" where
  "traverseBFS world rootPI options errs ir w =
     traverseLoop options world (initial_state rootPI errs ir w)"

text \<open>
  \<open>exportRecursive\<close>: open the writer, traverse, close the writer, build the result.
  The outcome is \<open>None\<close> when the traversal never ends, a rejection (\<open>Inl\<close>) when the
  writer fails, and otherwise the result with the final states of the writer and of the
  traversal.
\<close>

definition exportRecursive ::
  "World \<Rightarrow> ModsCollectionWriter \<Rightarrow> string \<Rightarrow> string \<Rightarrow> RecursiveOptions
     \<Rightarrow> ((string + RecursiveExportResult) \<times> TraversalState option) option" where
  "exportRecursive world w0 rootPI path options =
     (case open_writer path w0 of
        (Inl e, w1) \<Rightarrow> Some (Inl e, None)
      | (Inr u, w1) \<Rightarrow>
          (case traverseBFS world rootPI options [] [] w1 of
             None \<Rightarrow> None
           | Some st \<Rightarrow>
               (case close_writer (writer st) of
                  (Inl e, w2) \<Rightarrow>
                    (case close_writer w2 of
                       (Inl e2, w3) \<Rightarrow> Some (Inl e2, Some (st\<lparr>writer := w3\<rparr>))
                     | (Inr u2, w3) \<Rightarrow> Some (Inl e, Some (st\<lparr>writer := w3\<rparr>)))
                | (Inr u2, w2) \<Rightarrow>
                    Some (Inr \<lparr>totalEntities = entityCount st,
                                r_successCount = successCount st,
                                errorCount = length (errors st),
                                r_incompleteCount = incompleteCount st,
                                outputPath = path,
                                r_errors = errors st,
                                r_incompleteRecords = incompleteRecords st\<rparr>,
                          Some (st\<lparr>writer := w2\<rparr>)))))"


section \<open>Predicates used to state the properties of the traversal\<close>

fun is_fulfilled :: "Settled \<Rightarrow> bool" where
  "is_fulfilled (Fulfilled v) = True"
| "is_fulfilled (Rejected e) = False"

text \<open>
  The message of the hard failure of an entity, if it has one: its manifest cannot be
  fetched, or its export rejects.
\<close>

definition hard_failure :: "World \<Rightarrow> string \<Rightarrow> string option" where
  "hard_failure world p =
     (case fetchManifest world p of
        Inl e \<Rightarrow> Some e
      | Inr manifest \<Rightarrow>
          (case exporter_export world p of Inl e \<Rightarrow> Some e | Inr modsXml \<Rightarrow> None))"

text \<open>
  Every document the exporter returns holds a \<open><mods\<close> element, as the output of the
  XML generator does: \<open>extractModsElement\<close> finds it.
\<close>

definition serializes_mods :: "World \<Rightarrow> bool" where
  "serializes_mods world =
     (\<forall>p xml. exporter_export world p = Inr xml \<longrightarrow>
        indexOf ''<mods'' (strip_xml_declaration xml) \<noteq> None)"

text \<open>The state after the children of a settled node have been queued, counters aside.\<close>

definition enqueued ::
  "RecursiveOptions \<Rightarrow> EntityNode \<Rightarrow> Settled \<Rightarrow> TraversalState \<Rightarrow> TraversalState" where
  "enqueued opts node r st =
     (case r of
        Fulfilled v \<Rightarrow>
          if depth node < maxDepth opts \<and> children v \<noteq> None
          then enqueueChildren node (the (children v)) st else st
      | Rejected e \<Rightarrow> st)"

text \<open>
  Invariants of the traversal. \<open>pending\<close> holds the nodes of the current level that
  have not been handled yet. \<open>visit_inv\<close>: the identifiers reported, pending and queued
  are pairwise different and are exactly the visited set. \<open>depth_inv\<close>: no node lies
  deeper than the maximum depth. \<open>level_inv\<close>: the pending nodes have depth \<open>d\<close>, the
  queued ones depth \<open>d + 1\<close>. \<open>write_inv\<close>: the sink holds one record per success
  counted. \<open>error_inv\<close>: every hard failure reported so far is in \<open>errors\<close>.
\<close>

definition visit_inv :: "EntityNode list \<Rightarrow> TraversalState \<Rightarrow> bool" where
  "visit_inv pending st =
     (distinct (map currentPI (progress st) @ map pi pending @ map pi (queue st))
      \<and> visited st = set (map currentPI (progress st)) \<union> pi ` set pending \<union> pi ` set (queue st))"

definition depth_inv :: "RecursiveOptions \<Rightarrow> EntityNode list \<Rightarrow> TraversalState \<Rightarrow> bool" where
  "depth_inv opts pending st =
     ((\<forall>n \<in> set pending \<union> set (queue st). depth n \<le> maxDepth opts)
      \<and> (\<forall>e \<in> set (progress st). ev_depth e \<le> maxDepth opts))"

definition level_inv :: "nat \<Rightarrow> RecursiveOptions \<Rightarrow> EntityNode list \<Rightarrow> TraversalState \<Rightarrow> bool" where
  "level_inv d opts pending st =
     ((\<forall>n \<in> set pending. depth n = d)
      \<and> (\<forall>n \<in> set (queue st). depth n = d + 1 \<and> d < maxDepth opts))"

definition write_inv :: "World \<Rightarrow> string list \<Rightarrow> nat \<Rightarrow> TraversalState \<Rightarrow> bool" where
  "write_inv world base c0 st =
     (isOpen (writer st)
      \<and> (\<exists>recs. stream (writer st) = Some (base @ recs) \<and> length recs = successCount st)
      \<and> c0 + successCount st \<le> writeModsCalls (writer st)
      \<and> (serializes_mods world \<longrightarrow> writeModsCalls (writer st) = c0 + successCount st))"

definition error_inv :: "World \<Rightarrow> EntityNode list \<Rightarrow> TraversalState \<Rightarrow> bool" where
  "error_inv world pending st =
     (\<forall>ev \<in> set (progress st). \<forall>msg.
        hard_failure world (currentPI ev) = Some msg \<longrightarrow> (currentPI ev, msg) \<in> set (errors st))"

text \<open>
  \<open>closure_inv\<close>: the children named by the manifest of every reported node that lies
  above the maximum depth and is not in the error list have been visited.
  \<open>report_inv\<close>: the root is visited, the entity count is the number of reports, and
  every identifier in the error list has been reported.
\<close>

definition closure_inv :: "World \<Rightarrow> RecursiveOptions \<Rightarrow> EntityNode list \<Rightarrow> TraversalState \<Rightarrow> bool" where
  "closure_inv world opts pending st =
     (\<forall>ev \<in> set (progress st).
        ev_depth ev < maxDepth opts \<longrightarrow> currentPI ev \<notin> fst ` set (errors st) \<longrightarrow>
        (\<forall>manifest cs. fetchManifest world (currentPI ev) = Inr manifest \<longrightarrow>
           children_pi manifest = Some cs \<longrightarrow> set cs \<subseteq> visited st))"

definition report_inv :: "string \<Rightarrow> EntityNode list \<Rightarrow> TraversalState \<Rightarrow> bool" where
  "report_inv rootPI pending st =
     (rootPI \<in> visited st \<and> entityCount st = length (progress st)
      \<and> fst ` set (errors st) \<subseteq> currentPI ` set (progress st))"

text \<open>The sum of the three counts of a result equals its total.\<close>

definition counts_sum_to_total :: "RecursiveExportResult \<Rightarrow> bool" where
  "counts_sum_to_total r =
     (r_successCount r + r_incompleteCount r + errorCount r = totalEntities r)"


section \<open>A small tree\<close>

text \<open>
  A root \<open>r\<close> without PINAX metadata and with the children \<open>a\<close>, \<open>b\<close> and \<open>a\<close>
  again; \<open>a\<close> has PINAX metadata and names \<open>b\<close> and \<open>r\<close> as its children; the
  manifest of \<open>b\<close> cannot be fetched. The exporter answers the same small document for
  every entity.
\<close>

definition demo_manifest :: "string \<Rightarrow> (string \<times> string) list \<Rightarrow> string list \<Rightarrow> ArkeManifest" where
  "demo_manifest p comps kids =
     \<lparr>ArkeManifest.pi = p, ver = 1, ts = ''2025-01-01'', manifest_cid = ''cid'', prev_cid = None,
      components = comps, children_pi = Some kids, parent_pi = None, manifest_note = None\<rparr>"

definition demo_xml :: string where
  \<open>demo_xml = ''<?xml version="1.0"?>'' @ newline @ ''<mods>'' @ newline @ ''</mods>''\<close>

definition demo_world :: World where
  "demo_world =
     \<lparr>fetchManifest =
        (\<lambda>p. if p = ''r'' then Inr (demo_manifest ''r'' [] [''a'', ''b'', ''a''])
             else if p = ''a'' then Inr (demo_manifest ''a'' [(''pinax.json'', ''c1'')] [''b'', ''r''])
             else Inl ''Failed to fetch manifest: 404 Not Found''),
      exporter_export = (\<lambda>p. Inr demo_xml)\<rparr>"

definition demo_options :: RecursiveOptions where
  "demo_options = \<lparr>maxDepth = 5, parallelBatchSize = 2\<rparr>"

definition demo_record :: "string \<Rightarrow> string \<Rightarrow> string" where
  \<open>demo_record p position =
     ''  <mods ID="entity-'' @ p @ ''">'' @ newline
     @ ''    <note type="hierarchy" displayLabel="Tree Position">      depth: '' @ position
     @ ''    </note>'' @ newline @ newline @ ''  </mods>'' @ newline\<close>

definition demo_writer :: ModsCollectionWriter where
  "demo_writer =
     \<lparr>stream = Some (collection_header
                @ [demo_record ''r'' ''0, path: /r'', demo_record ''a'' ''1, parent: r, path: /r/a'']),
      isOpen = True, writeModsCalls = 2\<rparr>"

definition demo_state :: TraversalState where
  "demo_state =
     \<lparr>queue = [], visited = {''b'', ''a'', ''r''}, entityCount = 3, successCount = 2,
      incompleteCount = 1,
      errors = [(''b'', ''Failed to fetch manifest: 404 Not Found'')],
      incompleteRecords = [(''r'', ''Missing PINAX metadata (pinax.json component not found)'')],
      writer = demo_writer,
      progress =
        [\<lparr>current = 1, total = - 1, currentPI = ''r'', ev_depth = 0, phase = ''writing''\<rparr>,
         \<lparr>current = 2, total = - 1, currentPI = ''a'', ev_depth = 1, phase = ''writing''\<rparr>,
         \<lparr>current = 3, total = - 1, currentPI = ''b'', ev_depth = 1, phase = ''writing''\<rparr>]\<rparr>"

definition demo_result :: RecursiveExportResult where
  "demo_result =
     \<lparr>totalEntities = 3, r_successCount = 2, errorCount = 1, r_incompleteCount = 1,
      outputPath = ''out.xml'',
      r_errors = [(''b'', ''Failed to fetch manifest: 404 Not Found'')],
      r_incompleteRecords =
        [(''r'', ''Missing PINAX metadata (pinax.json component not found)'')]\<rparr>"


text \<open>What \<open>processEntity\<close> answers for the root of the small tree.\<close>

definition demo_value :: ProcessResult where
  "demo_value = \<lparr>children = Some [''a'', ''b'', ''a''], isIncomplete = True,
                  incompleteReason = Some ''Missing PINAX metadata''\<rparr>"


text \<open>
  A second tree, handled one node per batch: the root \<open>r\<close> names \<open>b\<close> and \<open>a\<close>;
  the manifest of \<open>b\<close> cannot be fetched; \<open>a\<close> names \<open>c\<close>, a leaf. The failure
  comes in the first batch of its level.
\<close>

definition demo2_world :: World where
  "demo2_world =
     \<lparr>fetchManifest =
        (\<lambda>p. if p = ''r'' then Inr (demo_manifest ''r'' [] [''b'', ''a''])
             else if p = ''a'' then Inr (demo_manifest ''a'' [(''pinax.json'', ''c1'')] [''c''])
             else if p = ''c'' then Inr (demo_manifest ''c'' [(''pinax.json'', ''c2'')] [])
             else Inl ''Failed to fetch manifest: 404 Not Found''),
      exporter_export = (\<lambda>p. Inr demo_xml)\<rparr>"

definition demo2_options :: RecursiveOptions where
  "demo2_options = \<lparr>maxDepth = 5, parallelBatchSize = 1\<rparr>"

definition demo2_writer :: ModsCollectionWriter where
  "demo2_writer =
     \<lparr>stream = Some (collection_header
                @ [demo_record ''r'' ''0, path: /r'', demo_record ''a'' ''1, parent: r, path: /r/a'',
                   demo_record ''c'' ''2, parent: a, path: /r/a/c'']),
      isOpen = True, writeModsCalls = 3\<rparr>"

definition demo2_state :: TraversalState where
  "demo2_state =
     \<lparr>queue = [], visited = {''c'', ''a'', ''b'', ''r''}, entityCount = 4, successCount = 3,
      incompleteCount = 1,
      errors = [(''b'', ''Failed to fetch manifest: 404 Not Found'')],
      incompleteRecords = [(''r'', ''Missing PINAX metadata (pinax.json component not found)'')],
      writer = demo2_writer,
      progress =
        [\<lparr>current = 1, total = - 1, currentPI = ''r'', ev_depth = 0, phase = ''writing''\<rparr>,
         \<lparr>current = 2, total = - 1, currentPI = ''b'', ev_depth = 1, phase = ''writing''\<rparr>,
         \<lparr>current = 3, total = - 1, currentPI = ''a'', ev_depth = 1, phase = ''writing''\<rparr>,
         \<lparr>current = 4, total = - 1, currentPI = ''c'', ev_depth = 2, phase = ''writing''\<rparr>]\<rparr>"

definition demo2_result :: RecursiveExportResult where
  "demo2_result =
     \<lparr>totalEntities = 4, r_successCount = 3, errorCount = 1, r_incompleteCount = 1,
      outputPath = ''out.xml'',
      r_errors = [(''b'', ''Failed to fetch manifest: 404 Not Found'')],
      r_incompleteRecords =
        [(''r'', ''Missing PINAX metadata (pinax.json component not found)'')]\<rparr>"


section \<open>Theorems: text utilities\<close>

lemma length_trimStart: "length (trimStart s) \<le> length s"
  unfolding trimStart_def by (simp add: length_dropWhile_le)

lemma length_trimEnd: "length (trimEnd s) \<le> length s"
proof -
  have "length (dropWhile js_space (rev s)) \<le> length (rev s)"
    by (rule length_dropWhile_le)
  then show ?thesis unfolding trimEnd_def by simp
qed

lemma length_trim: "length (trim s) \<le> length s"
  unfolding trim_def using length_trimEnd [of "trimStart s"] length_trimStart [of s] by linarith

lemma length_truncation_marker: "length truncation_marker = 21"
  by (simp add: truncation_marker_def)

lemma look_back_Some:
  "look_back s lim n = Some i \<Longrightarrow>
     lim < i \<and> i \<le> n \<and> is_break_char (char_at s i) \<and>
     (\<forall>k. i < k \<and> k \<le> n \<longrightarrow> \<not> is_break_char (char_at s k))"
proof (induction n)
  case 0
  then show ?case by simp
next
  case (Suc j)
  show ?case
  proof (cases "is_break_char (char_at s (Suc j))")
    case True
    with Suc.prems show ?thesis by (auto split: if_splits)
  next
    case False
    with Suc.prems have rec: "look_back s lim j = Some i" and "Suc j > lim"
      by (auto split: if_splits)
    from Suc.IH [OF rec] False show ?thesis
      by (auto simp: le_Suc_eq)
  qed
qed

lemma look_back_None:
  "look_back s lim n = None \<Longrightarrow> \<forall>k. lim < k \<and> k \<le> n \<longrightarrow> \<not> is_break_char (char_at s k)"
proof (induction n)
  case 0
  then show ?case by simp
next
  case (Suc j)
  show ?case
  proof (cases "Suc j > lim")
    case True
    with Suc.prems have nb: "\<not> is_break_char (char_at s (Suc j))"
      and rec: "look_back s lim j = None"
      by (auto split: if_splits)
    from Suc.IH [OF rec] nb show ?thesis
      by (auto simp: le_Suc_eq)
  next
    case False
    then show ?thesis by auto
  qed
qed


text \<open>
  C3. For a text longer than the limit, \<open>truncateText\<close> reports \<open>truncated\<close>, and the
  returned text is the trimmed prefix of the input up to a cut point followed by the
  truncation marker \<open>\n\n[... truncated ...]\<close> of 21 characters, so it is at most 21
  characters longer than the limit. The cut point is the last index \<open>i\<close> with
  \<open>limit - 100 < i \<le> limit\<close> (so never index 0, and never the index exactly 100 before
  the limit) at which the text has a space, a line feed or a tab; no other white space
  (carriage return, no-break space, form feed) counts. When none of these three
  characters stands at an index of that window, the cut point is the limit itself. A
  text no longer than the limit is returned unchanged with \<open>truncated\<close> false. The
  limit is a character count, a natural number.
\<close>

theorem truncateText_spec:
  "(length s > maxLength \<longrightarrow>
      truncated (truncateText s maxLength)
      \<and> length (rtext (truncateText s maxLength)) \<le> maxLength + length truncation_marker
      \<and> length truncation_marker = 21
      \<and> (\<exists>cut. rtext (truncateText s maxLength) = trim (take cut s) @ truncation_marker
            \<and> maxLength - 100 \<le> cut \<and> cut \<le> maxLength
            \<and> ((\<exists>i. in_window maxLength i \<and> is_break_char (char_at s i)) \<longrightarrow>
                  in_window maxLength cut \<and> is_break_char (char_at s cut)
                  \<and> (\<forall>i. in_window maxLength i \<and> is_break_char (char_at s i) \<longrightarrow> i \<le> cut))
            \<and> ((\<forall>i. in_window maxLength i \<longrightarrow> \<not> is_break_char (char_at s i)) \<longrightarrow>
                  cut = maxLength)))
   \<and> (length s \<le> maxLength \<longrightarrow> truncateText s maxLength = \<lparr>rtext = s, truncated = False\<rparr>)"
proof (intro conjI impI)
  assume short: "length s \<le> maxLength"
  then show "truncateText s maxLength = \<lparr>rtext = s, truncated = False\<rparr>"
    by (simp add: truncateText_def)
next
  assume long: "length s > maxLength"
  then have ne: "s \<noteq> []" by auto
  define bp where "bp = (case look_back s (maxLength - 100) maxLength of
                           Some i \<Rightarrow> i | None \<Rightarrow> maxLength)"
  have res: "truncateText s maxLength =
               \<lparr>rtext = trim (take bp s) @ truncation_marker, truncated = True\<rparr>"
    using long ne by (simp add: truncateText_def bp_def Let_def)
  show "truncated (truncateText s maxLength)" by (simp add: res)
  show "length truncation_marker = 21" by (rule length_truncation_marker)
  have bp_le: "bp \<le> maxLength" and bp_ge: "maxLength - 100 \<le> bp"
    using look_back_Some [of s "maxLength - 100" maxLength]
    by (auto simp: bp_def split: option.splits)
  have "length (trim (take bp s)) \<le> length (take bp s)" by (rule length_trim)
  also have "\<dots> \<le> bp" by simp
  finally have len: "length (trim (take bp s)) \<le> maxLength" using bp_le by linarith
  then show "length (rtext (truncateText s maxLength)) \<le> maxLength + length truncation_marker"
    by (simp add: res)
  have found: "in_window maxLength bp \<and> is_break_char (char_at s bp)
                 \<and> (\<forall>i. in_window maxLength i \<and> is_break_char (char_at s i) \<longrightarrow> i \<le> bp)"
    if ex: "\<exists>i. in_window maxLength i \<and> is_break_char (char_at s i)"
  proof (cases "look_back s (maxLength - 100) maxLength")
    case None
    from look_back_None [OF None] ex show ?thesis
      by (auto simp: in_window_def)
  next
    case (Some i)
    then have "bp = i" by (simp add: bp_def)
    with look_back_Some [OF Some] show ?thesis
      by (auto simp: in_window_def not_le [symmetric])
  qed
  have none: "bp = maxLength"
    if no: "\<forall>i. in_window maxLength i \<longrightarrow> \<not> is_break_char (char_at s i)"
  proof (cases "look_back s (maxLength - 100) maxLength")
    case None
    then show ?thesis by (simp add: bp_def)
  next
    case (Some i)
    from look_back_Some [OF Some] no show ?thesis
      by (auto simp: in_window_def)
  qed
  show "\<exists>cut. rtext (truncateText s maxLength) = trim (take cut s) @ truncation_marker
            \<and> maxLength - 100 \<le> cut \<and> cut \<le> maxLength
            \<and> ((\<exists>i. in_window maxLength i \<and> is_break_char (char_at s i)) \<longrightarrow>
                  in_window maxLength cut \<and> is_break_char (char_at s cut)
                  \<and> (\<forall>i. in_window maxLength i \<and> is_break_char (char_at s i) \<longrightarrow> i \<le> cut))
            \<and> ((\<forall>i. in_window maxLength i \<longrightarrow> \<not> is_break_char (char_at s i)) \<longrightarrow>
                  cut = maxLength)"
    using res bp_le bp_ge found none by (intro exI [of _ bp]) simp
qed

theorem truncateText_spec_witness:
  "length ''hello world foo'' > (8::nat)
   \<and> rtext (truncateText ''hello world foo'' 8) = ''hello'' @ truncation_marker
   \<and> length (rtext (truncateText ''hello world foo'' 8)) \<le> 8 + 21
   \<and> truncateText ''short'' 8 = \<lparr>rtext = ''short'', truncated = False\<rparr>"
proof -
  have cut: "rtext (truncateText ''hello world foo'' 8) = ''hello'' @ truncation_marker"
    by code_simp
  have long: "length ''hello world foo'' > (8::nat)" and short: "length ''short'' \<le> (8::nat)"
    by simp_all
  show ?thesis
    using truncateText_spec [where s = "''hello world foo''" and maxLength = 8]
      truncateText_spec [where s = "''short''" and maxLength = 8] cut long short
    by simp
qed

text \<open>
  The rule as the specification words it fails on a text whose white space in the window
  is a carriage return: the cut falls at the limit, inside a word.
\<close>

lemma truncateText_cut_point:
  "length s > maxLength \<Longrightarrow>
     truncateText s maxLength =
       \<lparr>rtext = trim (take (cut_point s maxLength) s) @ truncation_marker, truncated = True\<rparr>"
  by (auto simp: truncateText_def cut_point_def Let_def)

theorem whitespace_cut_counterexample:
  "length cr_text > 5
   \<and> white_space_at cr_text 2
   \<and> cut_point cr_text 5 = 5
   \<and> \<not> white_space_at cr_text 5
   \<and> rtext (truncateText cr_text 5) = ''ab'' @ [CHR 0x0D] @ ''cd'' @ truncation_marker
   \<and> \<not> whitespace_cut_claim cr_text 5"
proof -
  have len: "length cr_text > 5" by (simp add: cr_text_def)
  have ws: "white_space_at cr_text 2" by code_simp
  have cp: "cut_point cr_text 5 = 5" by code_simp
  have nws: "\<not> white_space_at cr_text 5" by code_simp
  have res: "rtext (truncateText cr_text 5) = ''ab'' @ [CHR 0x0D] @ ''cd'' @ truncation_marker"
    by code_simp
  have "\<exists>i. 5 - 100 \<le> i \<and> i \<le> (5::nat) \<and> white_space_at cr_text i"
    using ws by (intro exI [of _ 2]) simp
  with cp nws have "\<not> whitespace_cut_claim cr_text 5"
    by (simp add: whitespace_cut_claim_def)
  with len ws cp nws res show ?thesis by simp
qed

text \<open>
  The index exactly 100 before the limit is not inspected: with the limit 101 a space at
  index 1 is passed over and the cut falls at the limit.
\<close>

lemma truncateText_window_edge:
  "length edge_text > 101
   \<and> char_at edge_text (101 - 100) = Some CHR '' ''
   \<and> cut_point edge_text 101 = 101
   \<and> rtext (truncateText edge_text 101) = ''a '' @ replicate 99 (CHR ''x'') @ truncation_marker"
  by code_simp


section \<open>Theorems: the crosswalk\<close>

lemma mapResourceType_table_all:
  "list_all (\<lambda>(k, v). mapResourceType k = JsString v) typeMap"
  by code_simp

lemma mapResourceType_table:
  "(k, v) \<in> set typeMap \<Longrightarrow> mapResourceType k = JsString v"
  using mapResourceType_table_all by (auto simp only: list_all_iff)

lemma mapResourceType_default:
  "k \<notin> fst ` set typeMap \<Longrightarrow> k \<notin> set object_prototype_keys \<Longrightarrow>
     mapResourceType k = JsString ''text''"
proof -
  assume a: "k \<notin> fst ` set typeMap" and b: "k \<notin> set object_prototype_keys"
  from a have "map_of typeMap k = None" by (simp add: map_of_eq_None_iff)
  with b show ?thesis by (simp add: mapResourceType_def js_get_def js_or_def)
qed

text \<open>
  C2. \<open>mapResourceType\<close> answers the table's value for the twelve listed types
  (\<open>mapResourceType_table\<close>) and \<open>text\<close> for a string that is neither in the table
  nor the name of a member inherited from \<open>Object.prototype\<close>
  (\<open>mapResourceType_default\<close>). For a string such as \<open>constructor\<close>, which is not in
  the table, the lookup \<open>typeMap[dcmiType]\<close> finds the inherited member, a truthy value,
  and \<open>mapResourceType\<close> returns it instead of the default \<open>text\<close>.
\<close>

theorem mapResourceType_inherited_member:
  "''constructor'' \<notin> fst ` set typeMap
   \<and> mapResourceType ''constructor'' = JsInherited ''constructor''
   \<and> mapResourceType ''constructor'' \<noteq> JsString ''text''
   \<and> mapResourceType ''Image'' = JsString ''still image''
   \<and> mapResourceType ''Unknown'' = JsString ''text''"
  by (simp add: typeMap_def mapResourceType_def js_get_def js_or_def object_prototype_keys_def)

text \<open>
  C9. For a present source record, \<open>crosswalk\<close> emits exactly three identifier entries,
  in this order: the local PINAX id, the persistent identifier of the manifest, and the
  access URI, which is \<open>https://arke.institute/\<close> followed by the persistent identifier
  when \<open>access_url\<close> is the sentinel \<open>PLACEHOLDER\<close> and is \<open>access_url\<close> itself
  otherwise.
\<close>

theorem crosswalk_identifiers:
  "identifiers (crosswalk config pinax manifest description) =
     [\<lparr>id_value = pinax_id pinax, id_type = ''local'', id_displayLabel = ''PINAX ID''\<rparr>,
      \<lparr>id_value = ArkeManifest.pi manifest, id_type = ''arke-pi'',
        id_displayLabel = ''Arke Persistent Identifier''\<rparr>,
      \<lparr>id_value = (if pinax_access_url pinax = ''PLACEHOLDER''
                    then ''https://arke.institute/'' @ ArkeManifest.pi manifest
                    else pinax_access_url pinax),
        id_type = ''uri'', id_displayLabel = ''Arke URI''\<rparr>]
   \<and> length (identifiers (crosswalk config pinax manifest description)) = 3
   \<and> identifiers (export_document config today (Some pinax) manifest description cheirResult l)
       = identifiers (crosswalk config pinax manifest description)"
  by (cases cheirResult)
     (simp_all add: crosswalk_def mapIdentifiers_def export_document_def export_step3_def
        export_step4_def export_step5_def)


section \<open>Theorems: the degraded path\<close>

text \<open>
  C4. When \<open>pinax\<close> is absent, step 3 of \<open>export\<close> takes the minimal record and flags
  it incomplete, and the document handed to the XML generator has exactly one title, of
  type \<open>alternative\<close>, whose text contains the entity's identifier; exactly two
  identifiers, the persistent identifier and the manifest's content identifier; exactly
  one location URL, the manifest endpoint for the identifier; and a non-empty record
  origin.
\<close>

theorem export_without_pinax:
  "export_step3 config today None manifest description = (generateMinimalMods today manifest, True)
   \<and> titleInfo (export_document config today None manifest description cheirResult l)
       = [\<lparr>title = ''[Incomplete Record: '' @ ArkeManifest.pi manifest @ '']'',
            title_type = Some ''alternative''\<rparr>]
   \<and> identifiers (export_document config today None manifest description cheirResult l)
       = [\<lparr>id_value = ArkeManifest.pi manifest, id_type = ''arke-pi'',
            id_displayLabel = ''Arke Persistent Identifier''\<rparr>,
          \<lparr>id_value = manifest_cid manifest, id_type = ''arke-manifest-cid'',
            id_displayLabel = ''Manifest CID''\<rparr>]
   \<and> length (identifiers (export_document config today None manifest description cheirResult l)) = 2
   \<and> map url (urls (location (export_document config today None manifest description cheirResult l)))
       = [''https://api.arke.institute/manifest/'' @ ArkeManifest.pi manifest]
   \<and> (\<exists>origin. recordOrigin (recordInfo
          (export_document config today None manifest description cheirResult l)) = Some origin
        \<and> origin \<noteq> [])"
  by (cases cheirResult)
     (simp_all add: export_document_def export_step3_def export_step4_def export_step5_def
        generateMinimalMods_def)


section \<open>Theorems: the collection writer\<close>

lemma write_data_isOpen: "isOpen (snd (write_data d w)) = isOpen w"
  by (simp add: write_data_def split: option.splits)

lemma write_data_calls: "writeModsCalls (snd (write_data d w)) = writeModsCalls w"
  by (simp add: write_data_def split: option.splits)

lemma write_data_Some:
  "stream w = Some chunks \<Longrightarrow> write_data d w = (Inr (), w\<lparr>stream := Some (chunks @ [d])\<rparr>)"
  by (simp add: write_data_def)

lemma writeMods_isOpen: "isOpen (snd (writeMods x n w)) = isOpen w"
  by (simp add: writeMods_def Let_def write_data_isOpen split: sum.splits)

lemma close_writer_isOpen: "isOpen (snd (close_writer w)) = isOpen w"
  by (simp add: close_writer_def write_data_isOpen)

lemma open_writer_result:
  "open_writer path w =
     (Inr (), w\<lparr>stream := Some collection_header, isOpen := True\<rparr>)"
  by (simp add: open_writer_def collection_header_def write_data_def)

text \<open>
  C10. A call of \<open>writeMods\<close> on a writer that is not open, or that has no stream,
  rejects with the error \<open>Writer not open - call open() first\<close> and leaves the sink
  as it was. Neither \<open>writeMods\<close> nor \<open>write\<close> nor \<open>close\<close> changes \<open>isOpen\<close>; a
  writer that was never opened is not open; \<open>open\<close> sets it; and a \<open>writeMods\<close> that
  resolves was made on an open writer with a stream.
\<close>

theorem writeMods_requires_open:
  "(\<not> isOpen w \<or> stream w = None \<longrightarrow>
      fst (writeMods modsXml node w) = Inl ''Writer not open - call open() first''
      \<and> stream (snd (writeMods modsXml node w)) = stream w)
   \<and> isOpen (snd (writeMods modsXml node w)) = isOpen w
   \<and> isOpen (snd (write_data d w)) = isOpen w
   \<and> isOpen (snd (close_writer w)) = isOpen w
   \<and> \<not> isOpen new_writer \<and> stream new_writer = None
   \<and> isOpen (snd (open_writer path w))
   \<and> (fst (writeMods modsXml node w) = Inr () \<longrightarrow> isOpen w \<and> stream w \<noteq> None)"
proof -
  have closed: "fst (writeMods modsXml node w) = Inl ''Writer not open - call open() first''
      \<and> stream (snd (writeMods modsXml node w)) = stream w"
    if "\<not> isOpen w \<or> stream w = None"
    using that by (auto simp: writeMods_def Let_def)
  have needs: "isOpen w \<and> stream w \<noteq> None" if "fst (writeMods modsXml node w) = Inr ()"
    using that closed by (cases "\<not> isOpen w \<or> stream w = None") auto
  show ?thesis
    using closed needs
    by (simp add: writeMods_isOpen write_data_isOpen close_writer_isOpen new_writer_def
        open_writer_result)
qed

theorem writeMods_requires_open_witness:
  "\<not> isOpen new_writer
   \<and> fst (writeMods ''<mods></mods>'' (root_node ''r'') new_writer)
       = Inl ''Writer not open - call open() first''
   \<and> stream (snd (writeMods ''<mods></mods>'' (root_node ''r'') new_writer)) = None
   \<and> fst (writeMods ''<mods></mods>'' (root_node ''r'') (snd (open_writer ''out.xml'' new_writer)))
       = Inr ()"
  using writeMods_requires_open [of new_writer "''<mods></mods>''" "root_node ''r''"]
  by (simp add: new_writer_def open_writer_result writeMods_def extractModsElement_def
      xml_decl_match_def write_data_def)


section \<open>Theorems: invariants of the traversal loops\<close>

text \<open>
  A property of the per-node step carries over to a batch, to a level and to the whole
  loop. \<open>Q pending st\<close> relates the nodes of the level still to be handled to the state.
\<close>

lemma enqueueChildren_fields:
  "entityCount (enqueueChildren node cs st) = entityCount st
   \<and> successCount (enqueueChildren node cs st) = successCount st
   \<and> incompleteCount (enqueueChildren node cs st) = incompleteCount st
   \<and> errors (enqueueChildren node cs st) = errors st
   \<and> incompleteRecords (enqueueChildren node cs st) = incompleteRecords st
   \<and> writer (enqueueChildren node cs st) = writer st
   \<and> progress (enqueueChildren node cs st) = progress st"
  by (induction cs arbitrary: st) simp_all

lemma settle_all_length:
  "settle_all world batch w ir = (rs, w', ir') \<Longrightarrow> length rs = length batch"
  by (induction batch arbitrary: w ir rs w' ir') (auto split: prod.splits)

lemma settle_all_results:
  "settle_all world batch w ir = (rs, w', ir') \<Longrightarrow>
     list_all2 (\<lambda>node r. \<exists>w0 ir0. r = fst (processEntity world node w0 ir0)) batch rs"
proof (induction batch arbitrary: w ir rs w' ir')
  case Nil
  then show ?case by simp
next
  case (Cons node batch)
  obtain r w1 ir1 where pe: "processEntity world node w ir = (r, w1, ir1)"
    by (cases "processEntity world node w ir") auto
  obtain rs1 w2 ir2 where sa: "settle_all world batch w1 ir1 = (rs1, w2, ir2)"
    by (cases "settle_all world batch w1 ir1") auto
  from Cons.prems pe sa have rs: "rs = r # rs1" by simp
  have "\<exists>w0 ir0. r = fst (processEntity world node w0 ir0)"
    using pe by (intro exI [of _ w] exI [of _ ir]) simp
  with Cons.IH [OF sa] rs show ?case by simp
qed

lemma handle_results_rule:
  assumes h: "\<And>node rest r st w0 ir0. r = fst (processEntity world node w0 ir0) \<Longrightarrow>
                Q (node # rest) st \<Longrightarrow> Q rest (handleResult opts node r st)"
  shows "list_all2 (\<lambda>node r. \<exists>w0 ir0. r = fst (processEntity world node w0 ir0)) batch rs
           \<Longrightarrow> Q (batch @ rest) st \<Longrightarrow> Q rest (handle_results opts batch rs st)"
proof (induction batch arbitrary: rs st)
  case Nil
  then show ?case by simp
next
  case (Cons node batch)
  from Cons.prems(1) obtain r rs' where rs: "rs = r # rs'"
    and r: "\<exists>w0 ir0. r = fst (processEntity world node w0 ir0)"
    and rest: "list_all2 (\<lambda>node r. \<exists>w0 ir0. r = fst (processEntity world node w0 ir0)) batch rs'"
    by (auto simp: list_all2_Cons1)
  from r obtain w0 ir0 where r': "r = fst (processEntity world node w0 ir0)" by blast
  from Cons.prems(2) have "Q (node # (batch @ rest)) st" by simp
  with r' have "Q (batch @ rest) (handleResult opts node r st)" by (rule h)
  with Cons.IH [OF rest] rs show ?case by simp
qed

lemma process_batch_rule:
  assumes h: "\<And>node rest r st w0 ir0. r = fst (processEntity world node w0 ir0) \<Longrightarrow>
                Q (node # rest) st \<Longrightarrow> Q rest (handleResult opts node r st)"
    and wr: "\<And>p st w ir. Q p st \<Longrightarrow> Q p (st\<lparr>writer := w, incompleteRecords := ir\<rparr>)"
  shows "Q (batch @ rest) st \<Longrightarrow> Q rest (process_batch opts world batch st)"
proof -
  assume q: "Q (batch @ rest) st"
  obtain rs w' ir' where sa: "settle_all world batch (writer st) (incompleteRecords st) = (rs, w', ir')"
    by (cases "settle_all world batch (writer st) (incompleteRecords st)") auto
  note res = settle_all_results [OF sa]
  have "Q (batch @ rest) (st\<lparr>writer := w', incompleteRecords := ir'\<rparr>)"
    using q by (rule wr)
  then have "Q rest (handle_results opts batch rs (st\<lparr>writer := w', incompleteRecords := ir'\<rparr>))"
    using res by (intro handle_results_rule [where Q = Q and world = world]) (rule h)
  then show ?thesis by (simp add: process_batch_def sa)
qed

lemma processLevel_rule:
  assumes step: "\<And>batch rest st. Q (batch @ rest) st \<Longrightarrow> Q rest (process_batch opts world batch st)"
    and run: "processLevel opts world level i st = Some st'"
    and start: "Q (drop i level) st"
  shows "Q [] st'"
proof -
  have "o' = opts \<longrightarrow> w' = world \<longrightarrow> Q (drop i level) st \<longrightarrow> Q [] st'"
    if run': "processLevel o' w' level i st = Some st'" for o' w'
  proof (rule processLevel.raw_induct
      [where P = "\<lambda>o' w' level i st st'. o' = opts \<longrightarrow> w' = world \<longrightarrow> Q (drop i level) st \<longrightarrow> Q [] st'",
        OF _ run'], goal_cases)
    case (1 f o' w' level i st st')
    note IH = "1"(1) and eq = "1"(2)
    show ?case
    proof (intro impI)
      assume o: "o' = opts" and w: "w' = world" and q: "Q (drop i level) st"
      show "Q [] st'"
      proof (cases "i < length level")
        case True
        let ?bs = "parallelBatchSize opts"
        let ?st1 = "process_batch opts world (take ?bs (drop i level)) st"
        from True eq o w have rec: "f opts world level (i + ?bs) ?st1 = Some st'"
          by simp
        have split: "drop i level = take ?bs (drop i level) @ drop (i + ?bs) level"
          by (metis add.commute append_take_drop_id drop_drop)
        have "Q (take ?bs (drop i level) @ drop (i + ?bs) level) st"
          using q split by simp
        then have "Q (drop (i + ?bs) level) ?st1" by (rule step)
        with IH [OF rec] show ?thesis by simp
      next
        case False
        with eq q show ?thesis by simp
      qed
    qed
  qed
  with run start show ?thesis by simp
qed

lemma extractCurrentLevel_append:
  "fst (extractCurrentLevel q) @ snd (extractCurrentLevel q) = q"
  by (cases q) (simp_all add: extractCurrentLevel_def)

lemma traverseLoop_rule:
  assumes step: "\<And>batch rest st. Q (batch @ rest) st \<Longrightarrow> Q rest (process_batch opts world batch st)"
    and unq: "\<And>level rest st. Q [] st \<Longrightarrow> queue st = level @ rest \<Longrightarrow> Q level (st\<lparr>queue := rest\<rparr>)"
    and run: "traverseLoop opts world st = Some st'"
    and start: "Q [] st"
  shows "Q [] st'"
proof -
  have "o' = opts \<longrightarrow> w' = world \<longrightarrow> Q [] st \<longrightarrow> Q [] st'"
    if run': "traverseLoop o' w' st = Some st'" for o' w'
  proof (rule traverseLoop.raw_induct
      [where P = "\<lambda>o' w' st st'. o' = opts \<longrightarrow> w' = world \<longrightarrow> Q [] st \<longrightarrow> Q [] st'",
        OF _ run'], goal_cases)
    case (1 f o' w' st st')
    note IH = "1"(1) and eq = "1"(2)
    show ?case
    proof (intro impI)
      assume o: "o' = opts" and w: "w' = world" and q: "Q [] st"
      show "Q [] st'"
      proof (cases "queue st \<noteq> []")
        case True
        let ?level = "fst (extractCurrentLevel (queue st))"
        let ?rest = "snd (extractCurrentLevel (queue st))"
        from True eq o w obtain st1 where
          lvl: "processLevel opts world ?level 0 (st\<lparr>queue := ?rest\<rparr>) = Some st1"
          and rec: "f opts world st1 = Some st'"
          by (auto simp: bind_eq_Some_conv)
        have "queue st = ?level @ ?rest"
          by (simp add: extractCurrentLevel_append)
        with q have "Q ?level (st\<lparr>queue := ?rest\<rparr>)" by (rule unq)
        then have "Q (drop 0 ?level) (st\<lparr>queue := ?rest\<rparr>)" by simp
        with step lvl have "Q [] st1" by (rule processLevel_rule)
        with IH [OF rec] show ?thesis by simp
      next
        case False
        with eq q show ?thesis by simp
      qed
    qed
  qed
  with run start show ?thesis by simp
qed

lemma traverseLoop_invariant:
  assumes h: "\<And>node rest r st w0 ir0. r = fst (processEntity world node w0 ir0) \<Longrightarrow>
                Q (node # rest) st \<Longrightarrow> Q rest (handleResult opts node r st)"
    and wr: "\<And>p st w ir. Q p st \<Longrightarrow> Q p (st\<lparr>writer := w, incompleteRecords := ir\<rparr>)"
    and unq: "\<And>level rest st. Q [] st \<Longrightarrow> queue st = level @ rest \<Longrightarrow> Q level (st\<lparr>queue := rest\<rparr>)"
    and run: "traverseLoop opts world st = Some st'"
    and start: "Q [] st"
  shows "Q [] st'"
proof -
  have step: "Q rest (process_batch opts world batch st)" if q: "Q (batch @ rest) st" for batch rest st
  proof (rule process_batch_rule [where Q = Q and world = world], goal_cases)
    case (1 node rest r st w0 ir0)
    then show ?case by (rule h)
  next
    case (2 p st w ir)
    then show ?case by (rule wr)
  next
    case 3
    show ?case by (rule q)
  qed
  from step unq run start show ?thesis by (rule traverseLoop_rule [where Q = Q])
qed

lemma traverseLoop_queue_empty:
  assumes run: "traverseLoop opts world st = Some st'"
  shows "queue st' = []"
proof (rule traverseLoop.raw_induct [where P = "\<lambda>o' w' st st'. queue st' = []", OF _ run], goal_cases)
  case (1 f o' w' st st')
  note IH = "1"(1) and eq = "1"(2)
  show ?case
  proof (cases "queue st \<noteq> []")
    case True
    with eq obtain st1 where "f o' w' st1 = Some st'"
      by (auto simp: bind_eq_Some_conv)
    then show ?thesis by (rule IH)
  next
    case False
    with eq show ?thesis by simp
  qed
qed


section \<open>Theorems: queue, visited set and depth\<close>

lemma enqueueChildren_grows:
  "\<exists>new. queue (enqueueChildren node cs st) = queue st @ new
     \<and> (\<forall>c \<in> set new. depth c = depth node + 1 \<and> parentPI c = Some (pi node)
            \<and> pathFromRoot c = pathFromRoot node @ [pi c])"
proof (induction cs arbitrary: st)
  case Nil
  then show ?case by simp
next
  case (Cons c cs)
  show ?case
  proof (cases "c \<in> visited st")
    case True
    with Cons.IH [of st] show ?thesis by simp
  next
    case False
    let ?child = "\<lparr>pi = c, depth = depth node + 1, parentPI = Some (pi node),
                    pathFromRoot = pathFromRoot node @ [c]\<rparr>"
    let ?st1 = "st\<lparr>queue := queue st @ [?child], visited := insert c (visited st)\<rparr>"
    from Cons.IH [of ?st1] obtain new where
      q: "queue (enqueueChildren node cs ?st1) = queue ?st1 @ new"
      and all: "\<forall>c \<in> set new. depth c = depth node + 1 \<and> parentPI c = Some (pi node)
            \<and> pathFromRoot c = pathFromRoot node @ [pi c]"
      by blast
    have "queue (enqueueChildren node (c # cs) st) = queue st @ (?child # new)"
      using False q by simp
    moreover have "\<forall>c \<in> set (?child # new). depth c = depth node + 1 \<and> parentPI c = Some (pi node)
            \<and> pathFromRoot c = pathFromRoot node @ [pi c]"
      using all by simp
    ultimately show ?thesis by blast
  qed
qed

lemma handleResult_queue:
  "\<exists>new. queue (handleResult opts node r st) = queue st @ new
     \<and> (\<forall>c \<in> set new. depth c = depth node + 1 \<and> parentPI c = Some (pi node)
            \<and> pathFromRoot c = pathFromRoot node @ [pi c])
     \<and> (maxDepth opts \<le> depth node \<longrightarrow> new = [])
     \<and> (\<forall>e. r = Rejected e \<longrightarrow> new = [])"
proof (cases r)
  case (Rejected e)
  then show ?thesis by (simp add: handleResult_def)
next
  case (Fulfilled v)
  show ?thesis
  proof (cases "depth node < maxDepth opts \<and> children v \<noteq> None")
    case True
    let ?s = "if isIncomplete v
              then st\<lparr>entityCount := entityCount st + 1, successCount := successCount st + 1,
                      incompleteCount := incompleteCount st + 1\<rparr>
              else st\<lparr>entityCount := entityCount st + 1, successCount := successCount st + 1\<rparr>"
    have qs: "queue ?s = queue st" by simp
    from enqueueChildren_grows [of node "the (children v)" ?s] qs obtain new where
      "queue (enqueueChildren node (the (children v)) ?s) = queue st @ new"
      and "\<forall>c \<in> set new. depth c = depth node + 1 \<and> parentPI c = Some (pi node)
            \<and> pathFromRoot c = pathFromRoot node @ [pi c]"
      by auto
    with True Fulfilled show ?thesis
      by (auto simp: handleResult_def Let_def intro!: exI [of _ new])
  next
    case False
    with Fulfilled show ?thesis
      by (auto simp: handleResult_def Let_def)
  qed
qed

lemma enqueueChildren_cong:
  "queue s1 = queue s2 \<Longrightarrow> visited s1 = visited s2 \<Longrightarrow>
     queue (enqueueChildren node cs s1) = queue (enqueueChildren node cs s2)
     \<and> visited (enqueueChildren node cs s1) = visited (enqueueChildren node cs s2)"
proof (induction cs arbitrary: s1 s2)
  case Nil
  then show ?case by simp
next
  case (Cons c cs)
  let ?f = "\<lambda>s. if c \<notin> visited s
                then s\<lparr>queue := queue s @
                         [\<lparr>pi = c, depth = depth node + 1, parentPI = Some (pi node),
                           pathFromRoot = pathFromRoot node @ [c]\<rparr>],
                       visited := insert c (visited s)\<rparr>
                else s"
  have "queue (?f s1) = queue (?f s2)" and "visited (?f s1) = visited (?f s2)"
    using Cons.prems by simp_all
  from Cons.IH [OF this] show ?case by simp
qed

lemma enqueueChildren_counter_updates:
  "queue (enqueueChildren node cs (entityCount_update f s)) = queue (enqueueChildren node cs s)"
  "queue (enqueueChildren node cs (successCount_update f s)) = queue (enqueueChildren node cs s)"
  "queue (enqueueChildren node cs (incompleteCount_update f s)) = queue (enqueueChildren node cs s)"
  "visited (enqueueChildren node cs (entityCount_update f s)) = visited (enqueueChildren node cs s)"
  "visited (enqueueChildren node cs (successCount_update f s)) = visited (enqueueChildren node cs s)"
  "visited (enqueueChildren node cs (incompleteCount_update f s)) = visited (enqueueChildren node cs s)"
  using enqueueChildren_cong [of "entityCount_update f s" s node cs]
    enqueueChildren_cong [of "successCount_update f s" s node cs]
    enqueueChildren_cong [of "incompleteCount_update f s" s node cs]
  by simp_all

lemma handleResult_shape:
  "queue (handleResult opts node r st) = queue (enqueued opts node r st)
   \<and> visited (handleResult opts node r st) = visited (enqueued opts node r st)
   \<and> progress (handleResult opts node r st) =
       progress st @ [\<lparr>current = entityCount st + 1, total = - 1, currentPI = pi node,
                        ev_depth = depth node, phase = ''writing''\<rparr>]"
proof (cases r)
  case (Rejected e)
  then show ?thesis by (simp add: handleResult_def enqueued_def)
next
  case (Fulfilled v)
  then show ?thesis
    by (auto simp: handleResult_def enqueued_def Let_def enqueueChildren_fields
        enqueueChildren_counter_updates)
qed

lemma enqueueChildren_visit:
  "distinct (xs @ map pi (queue st)) \<Longrightarrow> visited st = set xs \<union> pi ` set (queue st) \<Longrightarrow>
     distinct (xs @ map pi (queue (enqueueChildren node cs st)))
     \<and> visited (enqueueChildren node cs st) = set xs \<union> pi ` set (queue (enqueueChildren node cs st))"
proof (induction cs arbitrary: st)
  case Nil
  then show ?case by simp
next
  case (Cons c cs)
  show ?case
  proof (cases "c \<in> visited st")
    case True
    with Cons.IH [OF Cons.prems] show ?thesis by simp
  next
    case False
    let ?child = "\<lparr>pi = c, depth = depth node + 1, parentPI = Some (pi node),
                    pathFromRoot = pathFromRoot node @ [c]\<rparr>"
    let ?st1 = "st\<lparr>queue := queue st @ [?child], visited := insert c (visited st)\<rparr>"
    have d: "distinct (xs @ map pi (queue ?st1))"
      using Cons.prems False by auto
    have v: "visited ?st1 = set xs \<union> pi ` set (queue ?st1)"
      using Cons.prems by auto
    from Cons.IH [OF d v] False show ?thesis by simp
  qed
qed

lemma handleResult_visit:
  assumes "visit_inv (node # rest) st"
  shows "visit_inv rest (handleResult opts node r st)"
proof -
  let ?xs = "map currentPI (progress st) @ [pi node] @ map pi rest"
  from assms have d: "distinct (?xs @ map pi (queue st))"
    and v: "visited st = set ?xs \<union> pi ` set (queue st)"
    by (auto simp: visit_inv_def)
  have "distinct (?xs @ map pi (queue (enqueued opts node r st)))
        \<and> visited (enqueued opts node r st) = set ?xs \<union> pi ` set (queue (enqueued opts node r st))"
    using d v enqueueChildren_visit [OF d v]
    by (simp add: enqueued_def split: Settled.splits)
  then show ?thesis
    using handleResult_shape [of opts node r st]
    by (auto simp: visit_inv_def)
qed

lemma traverseLoop_visit:
  assumes run: "traverseLoop opts world st = Some st'" and start: "visit_inv [] st"
  shows "visit_inv [] st'"
proof (rule traverseLoop_invariant [where Q = visit_inv, OF _ _ _ run start], goal_cases)
  case (1 node rest r st w0 ir0)
  then show ?case by (simp add: handleResult_visit)
next
  case (2 p st w ir)
  then show ?case by (simp add: visit_inv_def)
next
  case (3 level rest st)
  then show ?case by (auto simp: visit_inv_def)
qed

lemma handleResult_depth:
  assumes "depth_inv opts (node # rest) st"
  shows "depth_inv opts rest (handleResult opts node r st)"
proof -
  from handleResult_queue [of opts node r st] obtain new where
    q: "queue (handleResult opts node r st) = queue st @ new"
    and new: "\<forall>c \<in> set new. depth c = depth node + 1"
    and lim: "maxDepth opts \<le> depth node \<longrightarrow> new = []"
    by blast
  have "\<forall>c \<in> set new. depth c \<le> maxDepth opts"
  proof
    fix c assume c: "c \<in> set new"
    with lim have "depth node < maxDepth opts" by (cases "maxDepth opts \<le> depth node") auto
    with new c show "depth c \<le> maxDepth opts" by simp
  qed
  with assms q handleResult_shape [of opts node r st] show ?thesis
    by (auto simp: depth_inv_def)
qed

lemma traverseLoop_depth:
  assumes run: "traverseLoop opts world st = Some st'" and start: "depth_inv opts [] st"
  shows "depth_inv opts [] st'"
proof (rule traverseLoop_invariant [where Q = "depth_inv opts", OF _ _ _ run start], goal_cases)
  case (1 node rest r st w0 ir0)
  then show ?case by (simp add: handleResult_depth)
next
  case (2 p st w ir)
  then show ?case by (simp add: depth_inv_def)
next
  case (3 level rest st)
  then show ?case by (auto simp: depth_inv_def)
qed


section \<open>Theorems: termination\<close>

lemma processLevel_terminates:
  assumes bs: "0 < parallelBatchSize opts"
  shows "\<exists>st'. processLevel opts world level i st = Some st'"
proof (induction "length level - i" arbitrary: i st rule: less_induct)
  case less
  show ?case
  proof (cases "i < length level")
    case True
    let ?st1 = "process_batch opts world (take (parallelBatchSize opts) (drop i level)) st"
    have "length level - (i + parallelBatchSize opts) < length level - i"
      using True bs by simp
    from less [OF this, of ?st1] obtain st' where
      "processLevel opts world level (i + parallelBatchSize opts) ?st1 = Some st'" by blast
    with True show ?thesis by (subst processLevel.simps) simp
  next
    case False
    then show ?thesis by (subst processLevel.simps) simp
  qed
qed

lemma handleResult_level:
  assumes "level_inv d opts (node # rest) st"
  shows "level_inv d opts rest (handleResult opts node r st)"
proof -
  from handleResult_queue [of opts node r st] obtain new where
    q: "queue (handleResult opts node r st) = queue st @ new"
    and new: "\<forall>c \<in> set new. depth c = depth node + 1"
    and lim: "maxDepth opts \<le> depth node \<longrightarrow> new = []"
    by blast
  from assms have d: "depth node = d" by (simp add: level_inv_def)
  have "\<forall>c \<in> set new. depth c = d + 1 \<and> d < maxDepth opts"
  proof
    fix c assume c: "c \<in> set new"
    with lim have "depth node < maxDepth opts" by (cases "maxDepth opts \<le> depth node") auto
    with new c d show "depth c = d + 1 \<and> d < maxDepth opts" by simp
  qed
  with assms q show ?thesis by (auto simp: level_inv_def)
qed

lemma process_batch_level:
  assumes "level_inv d opts (batch @ rest) st"
  shows "level_inv d opts rest (process_batch opts world batch st)"
  using assms
proof (rule process_batch_rule [where Q = "level_inv d opts" and world = world, rotated 2], goal_cases)
  case (1 node rest r st w0 ir0)
  then show ?case by (simp add: handleResult_level)
next
  case (2 p st w ir)
  then show ?case by (simp add: level_inv_def)
qed

lemma extractCurrentLevel_uniform:
  assumes "\<forall>n \<in> set q. depth n = d"
  shows "fst (extractCurrentLevel q) = q \<and> snd (extractCurrentLevel q) = []"
proof (cases q)
  case Nil
  then show ?thesis by (simp add: extractCurrentLevel_def)
next
  case (Cons first rest)
  with assms have "\<forall>n \<in> set q. depth n = depth first" by auto
  then have "takeWhile (\<lambda>n. depth n = depth first) q = q"
    and "dropWhile (\<lambda>n. depth n = depth first) q = []"
    by (simp_all add: takeWhile_eq_all_conv)
  with Cons show ?thesis by (simp add: extractCurrentLevel_def)
qed

lemma traverseLoop_terminates:
  assumes bs: "0 < parallelBatchSize opts"
  shows "\<forall>n \<in> set (queue st). depth n = d \<Longrightarrow> d \<le> maxDepth opts
           \<Longrightarrow> \<exists>st'. traverseLoop opts world st = Some st'"
proof (induction "Suc (maxDepth opts) - d" arbitrary: d st rule: less_induct)
  case less
  show ?case
  proof (cases "queue st = []")
    case True
    then show ?thesis by (subst traverseLoop.simps) simp
  next
    case False
    let ?level = "fst (extractCurrentLevel (queue st))"
    let ?rest = "snd (extractCurrentLevel (queue st))"
    from extractCurrentLevel_uniform [OF less.prems(1)]
    have lv: "?level = queue st" and rs: "?rest = []" by simp_all
    from processLevel_terminates [OF bs] obtain st1 where
      p: "processLevel opts world ?level 0 (st\<lparr>queue := ?rest\<rparr>) = Some st1" by blast
    have start: "level_inv d opts (drop 0 ?level) (st\<lparr>queue := ?rest\<rparr>)"
      using less.prems(1) lv rs by (simp add: level_inv_def)
    have inv1: "level_inv d opts [] st1"
    proof (rule processLevel_rule [where Q = "level_inv d opts", OF _ p start])
      fix batch rest s
      assume "level_inv d opts (batch @ rest) s"
      then show "level_inv d opts rest (process_batch opts world batch s)"
        by (rule process_batch_level)
    qed
    have "\<exists>st'. traverseLoop opts world st1 = Some st'"
    proof (cases "queue st1 = []")
      case True
      then show ?thesis by (subst traverseLoop.simps) simp
    next
      case ne: False
      then obtain n where "n \<in> set (queue st1)" by (cases "queue st1") auto
      with inv1 have lt: "d < maxDepth opts" by (auto simp: level_inv_def)
      have u: "\<forall>n \<in> set (queue st1). depth n = d + 1"
        using inv1 by (simp add: level_inv_def)
      have "Suc (maxDepth opts) - (d + 1) < Suc (maxDepth opts) - d" using lt by simp
      from less.hyps [OF this u] lt show ?thesis by simp
    qed
    then obtain st' where "traverseLoop opts world st1 = Some st'" by blast
    with False p show ?thesis by (subst traverseLoop.simps) simp
  qed
qed

lemma traverseBFS_terminates:
  assumes "0 < parallelBatchSize opts"
  shows "\<exists>st'. traverseBFS world rootPI opts errs ir w = Some st'"
  unfolding traverseBFS_def
  by (rule traverseLoop_terminates [OF assms, where d = 0])
     (simp_all add: initial_state_def root_node_def)

lemma processLevel_diverges:
  assumes bs: "parallelBatchSize opts = 0" and i: "i < length level"
  shows "processLevel opts world level i st = None"
proof (cases "processLevel opts world level i st")
  case None
  then show ?thesis .
next
  case (Some st')
  have "parallelBatchSize opts \<noteq> 0 \<or> \<not> i < length level"
  proof (rule processLevel.raw_induct
      [where P = "\<lambda>o' w' level i st st'. parallelBatchSize o' \<noteq> 0 \<or> \<not> i < length level",
        OF _ Some], goal_cases)
    case (1 f o' w' level i st st')
    note IH = "1"(1) and eq = "1"(2)
    show ?case
    proof (cases "parallelBatchSize o' = 0 \<and> i < length level")
      case True
      with eq have "f o' w' level i (process_batch o' w' (take 0 (drop i level)) st) = Some st'"
        by simp
      from IH [OF this] True show ?thesis by simp
    next
      case False
      then show ?thesis by simp
    qed
  qed
  with bs i show ?thesis by simp
qed

lemma traverseLoop_diverges:
  assumes bs: "parallelBatchSize opts = 0" and q: "queue st \<noteq> []"
  shows "traverseLoop opts world st = None"
proof -
  from q obtain first rest where "queue st = first # rest" by (cases "queue st") auto
  then have "0 < length (fst (extractCurrentLevel (queue st)))"
    by (simp add: extractCurrentLevel_def)
  from processLevel_diverges [OF bs this] q show ?thesis
    by (subst traverseLoop.simps) simp
qed

lemma traverseBFS_returns_iff:
  "(\<exists>st. traverseBFS world rootPI opts errs ir w = Some st) = (0 < parallelBatchSize opts)"
proof (cases "0 < parallelBatchSize opts")
  case True
  with traverseBFS_terminates [OF True] show ?thesis by simp
next
  case False
  then have "parallelBatchSize opts = 0" by simp
  then have "traverseBFS world rootPI opts errs ir w = None"
    unfolding traverseBFS_def
    by (rule traverseLoop_diverges) (simp add: initial_state_def)
  with False show ?thesis by simp
qed


section \<open>Theorems: counters, errors and the sink\<close>

lemma handleResult_counts:
  assumes "successCount st + length (errors st) = entityCount st"
    and "incompleteCount st \<le> successCount st"
  shows "successCount (handleResult opts node r st) + length (errors (handleResult opts node r st))
           = entityCount (handleResult opts node r st)
         \<and> incompleteCount (handleResult opts node r st) \<le> successCount (handleResult opts node r st)"
  using assms by (cases r) (simp_all add: handleResult_def Let_def enqueueChildren_fields)

lemma traverseLoop_counts:
  assumes run: "traverseLoop opts world st = Some st'"
    and "successCount st + length (errors st) = entityCount st"
    and "incompleteCount st \<le> successCount st"
  shows "successCount st' + length (errors st') = entityCount st'
         \<and> incompleteCount st' \<le> successCount st'"
proof -
  let ?Q = "\<lambda>(p :: EntityNode list) s. successCount s + length (errors s) = entityCount s
              \<and> incompleteCount s \<le> successCount s"
  have "?Q [] st'"
  proof (rule traverseLoop_invariant [where Q = ?Q, OF _ _ _ run], goal_cases)
    case (1 node rest r st w0 ir0)
    then show ?case using handleResult_counts [of st opts node r] by simp
  next
    case (2 p st w ir)
    then show ?case by simp
  next
    case (3 level rest st)
    then show ?case by simp
  next
    case 4
    show ?case using assms(2,3) by simp
  qed
  then show ?thesis by simp
qed

lemma processEntity_hard_failure:
  "hard_failure world (pi node) = Some msg \<Longrightarrow> fst (processEntity world node w ir) = Rejected msg"
  by (auto simp: hard_failure_def processEntity_def Let_def split: sum.splits)

lemma processEntity_fulfilled:
  assumes "fst (processEntity world node w ir) = Fulfilled v"
  shows "\<exists>manifest. fetchManifest world (pi node) = Inr manifest
           \<and> children v = children_pi manifest
           \<and> isIncomplete v = (\<not> truthy (map_of (components manifest) ''pinax.json''))"
  using assms
  by (auto simp: processEntity_def Let_def split: sum.splits prod.splits)

lemma handleResult_errors:
  "errors (handleResult opts node r st) =
     errors st @ (case r of Rejected e \<Rightarrow> [(pi node, e)] | Fulfilled v \<Rightarrow> [])"
  by (cases r) (simp_all add: handleResult_def Let_def enqueueChildren_fields)

lemma handleResult_error_inv:
  assumes r: "r = fst (processEntity world node w0 ir0)"
    and inv: "error_inv world (node # rest) st"
  shows "error_inv world rest (handleResult opts node r st)"
proof -
  have new: "(pi node, msg) \<in> set (errors (handleResult opts node r st))"
    if "hard_failure world (pi node) = Some msg" for msg
    using processEntity_hard_failure [OF that, of w0 ir0] r
    by (simp add: handleResult_errors)
  have old: "set (errors st) \<subseteq> set (errors (handleResult opts node r st))"
    by (simp add: handleResult_errors)
  show ?thesis
    using inv new old handleResult_shape [of opts node r st]
    by (auto simp: error_inv_def)
qed

lemma traverseLoop_error_inv:
  assumes run: "traverseLoop opts world st = Some st'" and start: "error_inv world [] st"
  shows "error_inv world [] st'"
proof (rule traverseLoop_invariant [where Q = "error_inv world", OF _ _ _ run start], goal_cases)
  case (1 node rest r st w0 ir0)
  then show ?case by (rule handleResult_error_inv)
next
  case (2 p st w ir)
  then show ?case by (simp add: error_inv_def)
next
  case (3 level rest st)
  then show ?case by (simp add: error_inv_def)
qed

lemma writeMods_open:
  assumes "isOpen w" and "stream w = Some chunks"
  shows "(\<exists>e. writeMods xml node w = (Inl e, w\<lparr>writeModsCalls := writeModsCalls w + 1\<rparr>)
              \<and> indexOf ''<mods'' (strip_xml_declaration xml) = None)
         \<or> (\<exists>item. writeMods xml node w =
               (Inr (), w\<lparr>writeModsCalls := writeModsCalls w + 1,
                          stream := Some (chunks @ [item])\<rparr>))"
  using assms
  by (auto simp: writeMods_def Let_def extractModsElement_def write_data_def split: option.splits)

lemma processEntity_writer:
  assumes o: "isOpen w" and s: "stream w = Some chunks"
    and pe: "processEntity world node w ir = (r, w', ir')"
  shows "isOpen w'
         \<and> (is_fulfilled r \<longrightarrow> (\<exists>item. stream w' = Some (chunks @ [item]))
               \<and> writeModsCalls w' = writeModsCalls w + 1)
         \<and> (\<not> is_fulfilled r \<longrightarrow> stream w' = Some chunks
               \<and> writeModsCalls w' \<ge> writeModsCalls w
               \<and> (serializes_mods world \<longrightarrow> writeModsCalls w' = writeModsCalls w))"
proof (cases "fetchManifest world (pi node)")
  case (Inl e)
  with pe o s show ?thesis by (auto simp: processEntity_def)
next
  case (Inr manifest)
  show ?thesis
  proof (cases "exporter_export world (pi node)")
    case (Inl e)
    with Inr pe o s show ?thesis by (auto simp: processEntity_def Let_def)
  next
    case xml: (Inr modsXml)
    from writeMods_open [OF o s, of modsXml node] show ?thesis
    proof (elim disjE exE conjE)
      fix e
      assume wm: "writeMods modsXml node w = (Inl e, w\<lparr>writeModsCalls := writeModsCalls w + 1\<rparr>)"
        and nomods: "indexOf ''<mods'' (strip_xml_declaration modsXml) = None"
      from xml nomods have "\<not> serializes_mods world"
        by (auto simp: serializes_mods_def)
      with Inr xml wm pe o s show ?thesis
        by (auto simp: processEntity_def Let_def)
    next
      fix item
      assume wm: "writeMods modsXml node w =
               (Inr (), w\<lparr>writeModsCalls := writeModsCalls w + 1,
                          stream := Some (chunks @ [item])\<rparr>)"
      with Inr xml pe o s show ?thesis
        by (auto simp: processEntity_def Let_def)
    qed
  qed
qed

lemma settle_all_writer:
  "isOpen w \<Longrightarrow> stream w = Some chunks \<Longrightarrow> settle_all world batch w ir = (rs, w', ir') \<Longrightarrow>
     isOpen w'
     \<and> (\<exists>new. stream w' = Some (chunks @ new) \<and> length new = length (filter is_fulfilled rs))
     \<and> writeModsCalls w + length (filter is_fulfilled rs) \<le> writeModsCalls w'
     \<and> (serializes_mods world \<longrightarrow>
           writeModsCalls w' = writeModsCalls w + length (filter is_fulfilled rs))"
proof (induction batch arbitrary: w chunks ir rs w' ir')
  case Nil
  then show ?case by simp
next
  case (Cons node batch)
  obtain r w1 ir1 where pe: "processEntity world node w ir = (r, w1, ir1)"
    by (cases "processEntity world node w ir") auto
  obtain rs1 w2 ir2 where sa: "settle_all world batch w1 ir1 = (rs1, w2, ir2)"
    by (cases "settle_all world batch w1 ir1") auto
  from Cons.prems(3) pe sa have rs: "rs = r # rs1" and w': "w' = w2" by simp_all
  note one = processEntity_writer [OF Cons.prems(1,2) pe]
  show ?case
  proof (cases "is_fulfilled r")
    case True
    with one obtain item where s1: "stream w1 = Some (chunks @ [item])"
      and c1: "writeModsCalls w1 = writeModsCalls w + 1" and o1: "isOpen w1" by blast
    from Cons.IH [OF o1 s1 sa] obtain new where
      "isOpen w2" and "stream w2 = Some ((chunks @ [item]) @ new)"
      and "length new = length (filter is_fulfilled rs1)"
      and "writeModsCalls w1 + length (filter is_fulfilled rs1) \<le> writeModsCalls w2"
      and "serializes_mods world \<longrightarrow>
             writeModsCalls w2 = writeModsCalls w1 + length (filter is_fulfilled rs1)"
      by blast
    with True rs w' c1 show ?thesis
      by (auto intro!: exI [of _ "item # new"])
  next
    case False
    with one have s1: "stream w1 = Some chunks" and o1: "isOpen w1"
      and c1: "writeModsCalls w \<le> writeModsCalls w1"
      and c1': "serializes_mods world \<longrightarrow> writeModsCalls w1 = writeModsCalls w"
      by simp_all
    from Cons.IH [OF o1 s1 sa] obtain new where
      "isOpen w2" and "stream w2 = Some (chunks @ new)"
      and "length new = length (filter is_fulfilled rs1)"
      and "writeModsCalls w1 + length (filter is_fulfilled rs1) \<le> writeModsCalls w2"
      and "serializes_mods world \<longrightarrow>
             writeModsCalls w2 = writeModsCalls w1 + length (filter is_fulfilled rs1)"
      by blast
    with False rs w' c1 c1' show ?thesis
      by (auto intro!: exI [of _ new])
  qed
qed

lemma handleResult_success:
  "successCount (handleResult opts node r st) = successCount st + (if is_fulfilled r then 1 else 0)
   \<and> writer (handleResult opts node r st) = writer st"
  by (cases r) (simp_all add: handleResult_def Let_def enqueueChildren_fields)

lemma handle_results_success:
  "length rs = length batch \<Longrightarrow>
     successCount (handle_results opts batch rs st) = successCount st + length (filter is_fulfilled rs)
     \<and> writer (handle_results opts batch rs st) = writer st"
proof (induction batch arbitrary: rs st)
  case Nil
  then show ?case by simp
next
  case (Cons node batch)
  then obtain r rs' where rs: "rs = r # rs'" by (cases rs) auto
  with Cons.prems have "length rs' = length batch" by simp
  from Cons.IH [OF this, of "handleResult opts node r st"] rs
    handleResult_success [of opts node r st]
  show ?case by simp
qed

lemma process_batch_write:
  assumes "write_inv world base c0 st"
  shows "write_inv world base c0 (process_batch opts world batch st)"
proof -
  from assms obtain recs where o: "isOpen (writer st)"
    and s: "stream (writer st) = Some (base @ recs)" and l: "length recs = successCount st"
    and c: "c0 + successCount st \<le> writeModsCalls (writer st)"
    and c': "serializes_mods world \<longrightarrow> writeModsCalls (writer st) = c0 + successCount st"
    by (auto simp: write_inv_def)
  obtain rs w' ir' where sa: "settle_all world batch (writer st) (incompleteRecords st) = (rs, w', ir')"
    by (cases "settle_all world batch (writer st) (incompleteRecords st)") auto
  from settle_all_writer [OF o s sa] obtain new where
    o': "isOpen w'" and s': "stream w' = Some ((base @ recs) @ new)"
    and l': "length new = length (filter is_fulfilled rs)"
    and k: "writeModsCalls (writer st) + length (filter is_fulfilled rs) \<le> writeModsCalls w'"
    and k': "serializes_mods world \<longrightarrow>
           writeModsCalls w' = writeModsCalls (writer st) + length (filter is_fulfilled rs)"
    by blast
  let ?st1 = "st\<lparr>writer := w', incompleteRecords := ir'\<rparr>"
  have len: "length rs = length batch" using settle_all_length [OF sa] .
  from handle_results_success [OF len, of opts ?st1]
  have sc: "successCount (handle_results opts batch rs ?st1)
              = successCount st + length (filter is_fulfilled rs)"
    and wr: "writer (handle_results opts batch rs ?st1) = w'" by simp_all
  have pb: "process_batch opts world batch st = handle_results opts batch rs ?st1"
    by (simp add: process_batch_def sa)
  show ?thesis
    unfolding write_inv_def pb sc wr
    using o' s' l l' c c' k k' by (auto intro!: exI [of _ "recs @ new"])
qed

lemma traverseLoop_write:
  assumes run: "traverseLoop opts world st = Some st'" and start: "write_inv world base c0 st"
  shows "write_inv world base c0 st'"
proof (rule traverseLoop_rule [where Q = "\<lambda>p. write_inv world base c0", OF _ _ run start], goal_cases)
  case (1 batch rest st)
  then show ?case by (rule process_batch_write)
next
  case (2 level rest st)
  then show ?case by (simp add: write_inv_def)
qed

lemma writeMods_rejected_sink:
  "fst (writeMods xml node w) = Inl e \<Longrightarrow> stream (snd (writeMods xml node w)) = stream w"
  by (auto simp: writeMods_def Let_def write_data_def split: sum.splits option.splits if_splits)

lemma processEntity_rejected_sink:
  "\<not> is_fulfilled (fst (processEntity world node w ir)) \<Longrightarrow>
     stream (fst (snd (processEntity world node w ir))) = stream w"
proof (cases "fetchManifest world (pi node)")
  case (Inl e)
  then show ?thesis by (simp add: processEntity_def)
next
  case (Inr manifest)
  assume nf: "\<not> is_fulfilled (fst (processEntity world node w ir))"
  show ?thesis
  proof (cases "exporter_export world (pi node)")
    case (Inl e)
    with Inr show ?thesis by (simp add: processEntity_def Let_def)
  next
    case xml: (Inr modsXml)
    obtain res w' where wm: "writeMods modsXml node w = (res, w')"
      by (cases "writeMods modsXml node w") auto
    with nf Inr xml obtain e where "res = Inl e"
      by (cases res) (auto simp: processEntity_def Let_def)
    with wm writeMods_rejected_sink [of modsXml node w e] Inr xml show ?thesis
      by (simp add: processEntity_def Let_def)
  qed
qed

lemma exportRecursive_Some:
  assumes "exportRecursive world w0 rootPI path opts = Some (Inr r, Some st)"
  shows "\<exists>st0. traverseLoop opts world
                 (initial_state rootPI [] [] (w0\<lparr>stream := Some collection_header, isOpen := True\<rparr>))
               = Some st0
           \<and> st = st0\<lparr>writer := snd (close_writer (writer st0))\<rparr>
           \<and> r = \<lparr>totalEntities = entityCount st0, r_successCount = successCount st0,
                   errorCount = length (errors st0), r_incompleteCount = incompleteCount st0,
                   outputPath = path, r_errors = errors st0,
                   r_incompleteRecords = incompleteRecords st0\<rparr>"
  using assms
  by (auto simp: exportRecursive_def traverseBFS_def open_writer_result
      split: option.splits prod.splits sum.splits)

lemma enqueueChildren_visited:
  "visited (enqueueChildren node cs st) = visited st \<union> set cs"
  by (induction cs arbitrary: st) auto

lemma handleResult_visited:
  "visited st \<subseteq> visited (handleResult opts node r st)
   \<and> (\<forall>v cs. r = Fulfilled v \<longrightarrow> depth node < maxDepth opts \<longrightarrow> children v = Some cs \<longrightarrow>
          set cs \<subseteq> visited (handleResult opts node r st))"
  using handleResult_shape [of opts node r st]
  by (auto simp: enqueued_def enqueueChildren_visited split: Settled.splits)

lemma handleResult_entityCount:
  "entityCount (handleResult opts node r st) = entityCount st + 1"
  by (cases r) (simp_all add: handleResult_def Let_def enqueueChildren_fields)

lemma handleResult_closure:
  assumes r: "r = fst (processEntity world node w0 ir0)"
    and inv: "closure_inv world opts (node # rest) st"
  shows "closure_inv world opts rest (handleResult opts node r st)"
proof -
  let ?st' = "handleResult opts node r st"
  have vis: "visited st \<subseteq> visited ?st'" using handleResult_visited [of st opts node r] by simp
  have errs: "set (errors st) \<subseteq> set (errors ?st')" by (simp add: handleResult_errors)
  have pr: "progress ?st' = progress st @ [\<lparr>current = entityCount st + 1, total = - 1,
              currentPI = pi node, ev_depth = depth node, phase = ''writing''\<rparr>]"
    using handleResult_shape [of opts node r st] by simp
  have new: "set cs \<subseteq> visited ?st'"
    if d: "depth node < maxDepth opts" and ne: "pi node \<notin> fst ` set (errors ?st')"
      and m: "fetchManifest world (pi node) = Inr manifest" and c: "children_pi manifest = Some cs"
    for manifest cs
  proof (cases r)
    case (Rejected e)
    then have "(pi node, e) \<in> set (errors ?st')" by (simp add: handleResult_errors)
    then have "pi node \<in> fst ` set (errors ?st')" by force
    with ne show ?thesis by simp
  next
    case (Fulfilled v)
    with r processEntity_fulfilled [of world node w0 ir0 v] m c
    have "children v = Some cs" by auto
    with Fulfilled d handleResult_visited [of st opts node r] show ?thesis by blast
  qed
  have old: "set cs \<subseteq> visited ?st'"
    if ev: "ev \<in> set (progress st)" and d: "ev_depth ev < maxDepth opts"
      and ne: "currentPI ev \<notin> fst ` set (errors ?st')"
      and m: "fetchManifest world (currentPI ev) = Inr manifest" and c: "children_pi manifest = Some cs"
    for ev manifest cs
  proof -
    from ne errs have "currentPI ev \<notin> fst ` set (errors st)" by auto
    with inv ev d m c have "set cs \<subseteq> visited st" by (auto simp: closure_inv_def)
    with vis show ?thesis by blast
  qed
  show ?thesis
    unfolding closure_inv_def pr
    using new old by auto
qed

lemma traverseLoop_closure:
  assumes run: "traverseLoop opts world st = Some st'" and start: "closure_inv world opts [] st"
  shows "closure_inv world opts [] st'"
proof (rule traverseLoop_invariant [where Q = "closure_inv world opts", OF _ _ _ run start], goal_cases)
  case (1 node rest r st w0 ir0)
  then show ?case by (rule handleResult_closure)
next
  case (2 p st w ir)
  then show ?case by (simp add: closure_inv_def)
next
  case (3 level rest st)
  then show ?case by (simp add: closure_inv_def)
qed

lemma handleResult_report:
  assumes "report_inv rootPI (node # rest) st"
  shows "report_inv rootPI rest (handleResult opts node r st)"
proof -
  let ?st' = "handleResult opts node r st"
  have pr: "progress ?st' = progress st @ [\<lparr>current = entityCount st + 1, total = - 1,
              currentPI = pi node, ev_depth = depth node, phase = ''writing''\<rparr>]"
    using handleResult_shape [of opts node r st] by simp
  have es: "fst ` set (errors ?st') \<subseteq> fst ` set (errors st) \<union> {pi node}"
    by (cases r) (auto simp: handleResult_errors)
  have cur: "currentPI ` set (progress ?st') = currentPI ` set (progress st) \<union> {pi node}"
    by (simp add: pr)
  from assms have sub: "fst ` set (errors st) \<subseteq> currentPI ` set (progress st)"
    by (simp add: report_inv_def)
  from es sub have "fst ` set (errors ?st') \<subseteq> currentPI ` set (progress ?st')"
    unfolding cur by blast
  moreover have "rootPI \<in> visited ?st'"
    using assms handleResult_visited [of st opts node r] by (auto simp: report_inv_def)
  moreover have "entityCount ?st' = length (progress ?st')"
    using assms handleResult_entityCount [of opts node r st] by (simp add: pr report_inv_def)
  ultimately show ?thesis by (simp add: report_inv_def)
qed

lemma traverseLoop_report:
  assumes run: "traverseLoop opts world st = Some st'" and start: "report_inv rootPI [] st"
  shows "report_inv rootPI [] st'"
proof (rule traverseLoop_invariant [where Q = "report_inv rootPI", OF _ _ _ run start], goal_cases)
  case (1 node rest r st w0 ir0)
  then show ?case by (simp add: handleResult_report)
next
  case (2 p st w ir)
  then show ?case by (simp add: report_inv_def)
next
  case (3 level rest st)
  then show ?case by (simp add: report_inv_def)
qed

lemma exportRecursive_returns_iff:
  "(\<exists>r fin. exportRecursive world w0 rootPI path opts = Some (Inr r, Some fin))
     = (0 < parallelBatchSize opts)"
proof (cases "0 < parallelBatchSize opts")
  case True
  let ?w1 = "w0\<lparr>stream := Some collection_header, isOpen := True\<rparr>"
  from traverseBFS_terminates [OF True] obtain st0 where
    run: "traverseBFS world rootPI opts [] [] ?w1 = Some st0" by blast
  then have loop: "traverseLoop opts world (initial_state rootPI [] [] ?w1) = Some st0"
    by (simp add: traverseBFS_def)
  have "write_inv world collection_header (writeModsCalls w0) (initial_state rootPI [] [] ?w1)"
    by (simp add: write_inv_def initial_state_def)
  with loop have "write_inv world collection_header (writeModsCalls w0) st0"
    by (rule traverseLoop_write)
  then obtain chunks where "stream (writer st0) = Some chunks" by (auto simp: write_inv_def)
  then have "fst (close_writer (writer st0)) = Inr ()"
    by (simp add: close_writer_def write_data_def)
  then obtain w2 where "close_writer (writer st0) = (Inr (), w2)"
    by (cases "close_writer (writer st0)") auto
  with run have "\<exists>r fin. exportRecursive world w0 rootPI path opts = Some (Inr r, Some fin)"
    by (simp add: exportRecursive_def open_writer_result)
  with True show ?thesis by simp
next
  case False
  then have "parallelBatchSize opts = 0" by simp
  then have "traverseBFS world rootPI opts [] []
               (w0\<lparr>stream := Some collection_header, isOpen := True\<rparr>) = None"
    unfolding traverseBFS_def
    by (rule traverseLoop_diverges) (simp add: initial_state_def)
  then have "exportRecursive world w0 rootPI path opts = None"
    by (simp add: exportRecursive_def open_writer_result)
  with False show ?thesis by simp
qed

lemma exportRecursive_summary:
  assumes run: "exportRecursive world w0 rootPI path opts = Some (Inr r, Some fin)"
  shows "queue fin = [] \<and> rootPI \<in> visited fin
         \<and> visited fin = set (map currentPI (progress fin))
         \<and> distinct (map currentPI (progress fin))
         \<and> totalEntities r = length (progress fin)
         \<and> r_errors r = errors fin \<and> errorCount r = length (r_errors r)
         \<and> fst ` set (r_errors r) \<subseteq> set (map currentPI (progress fin))
         \<and> (\<forall>ev \<in> set (progress fin). \<forall>msg.
               hard_failure world (currentPI ev) = Some msg \<longrightarrow>
               (currentPI ev, msg) \<in> set (r_errors r))
         \<and> (\<forall>ev \<in> set (progress fin).
               ev_depth ev < maxDepth opts \<longrightarrow> currentPI ev \<notin> fst ` set (r_errors r) \<longrightarrow>
               (\<forall>manifest cs. fetchManifest world (currentPI ev) = Inr manifest \<longrightarrow>
                  children_pi manifest = Some cs \<longrightarrow>
                  set cs \<subseteq> set (map currentPI (progress fin))))"
proof -
  let ?w1 = "w0\<lparr>stream := Some collection_header, isOpen := True\<rparr>"
  let ?init = "initial_state rootPI [] [] ?w1"
  from exportRecursive_Some [OF run] obtain st0 where
    loop: "traverseLoop opts world ?init = Some st0"
    and fin: "fin = st0\<lparr>writer := snd (close_writer (writer st0))\<rparr>"
    and r: "r = \<lparr>totalEntities = entityCount st0, r_successCount = successCount st0,
                  errorCount = length (errors st0), r_incompleteCount = incompleteCount st0,
                  outputPath = path, r_errors = errors st0,
                  r_incompleteRecords = incompleteRecords st0\<rparr>"
    by blast
  have q: "queue st0 = []" using loop by (rule traverseLoop_queue_empty)
  have "visit_inv [] ?init" by (simp add: visit_inv_def initial_state_def root_node_def)
  with loop have "visit_inv [] st0" by (rule traverseLoop_visit)
  with q have v: "visited st0 = set (map currentPI (progress st0))"
    and d: "distinct (map currentPI (progress st0))"
    by (simp_all add: visit_inv_def)
  have "report_inv rootPI [] ?init" by (simp add: report_inv_def initial_state_def)
  with loop have "report_inv rootPI [] st0" by (rule traverseLoop_report)
  then have root: "rootPI \<in> visited st0" and n: "entityCount st0 = length (progress st0)"
    and sub: "fst ` set (errors st0) \<subseteq> currentPI ` set (progress st0)"
    by (simp_all add: report_inv_def)
  have "error_inv world [] ?init" by (simp add: error_inv_def initial_state_def)
  with loop have "error_inv world [] st0" by (rule traverseLoop_error_inv)
  then have e: "\<forall>ev \<in> set (progress st0). \<forall>msg.
               hard_failure world (currentPI ev) = Some msg \<longrightarrow>
               (currentPI ev, msg) \<in> set (errors st0)"
    by (simp add: error_inv_def)
  have "closure_inv world opts [] ?init" by (simp add: closure_inv_def initial_state_def)
  with loop have "closure_inv world opts [] st0" by (rule traverseLoop_closure)
  then have c: "\<forall>ev \<in> set (progress st0).
               ev_depth ev < maxDepth opts \<longrightarrow> currentPI ev \<notin> fst ` set (errors st0) \<longrightarrow>
               (\<forall>manifest cs. fetchManifest world (currentPI ev) = Inr manifest \<longrightarrow>
                  children_pi manifest = Some cs \<longrightarrow>
                  set cs \<subseteq> set (map currentPI (progress st0)))"
    unfolding closure_inv_def v .
  show ?thesis
    using q v d root n sub e c unfolding fin r by simp
qed


section \<open>The small tree, evaluated\<close>

lemma demo_traverse:
  "traverseBFS demo_world ''r'' demo_options [] [] (snd (open_writer ''out.xml'' new_writer))
     = Some demo_state"
  by (simp add: traverseBFS_def initial_state_def root_node_def traverseLoop.simps processLevel.simps
     demo_world_def demo_manifest_def demo_options_def demo_state_def demo_writer_def demo_record_def demo_xml_def
     open_writer_result collection_header_def write_data_def new_writer_def newline_def
     extractCurrentLevel_def process_batch_def processEntity_def truthy_def writeMods_def extractModsElement_def
     xml_decl_match_def indent_lines_def addHierarchyMetadata_def add_id_attribute_def close_tag_match_def hierarchyNote_def
     handleResult_def trimEnd_def js_space_def show_nat.simps digit_char_def insert_commute)

lemma demo_run:
  "exportRecursive demo_world new_writer ''r'' ''out.xml'' demo_options
     = Some (Inr demo_result, Some (demo_state\<lparr>writer := snd (close_writer demo_writer)\<rparr>))"
proof -
  have "close_writer demo_writer
          = (Inr (), demo_writer\<lparr>stream := Some (the (stream demo_writer) @ [''</modsCollection>'' @ newline])\<rparr>)"
    by (simp add: close_writer_def demo_writer_def write_data_def)
  then show ?thesis
    using demo_traverse
    by (simp add: exportRecursive_def open_writer_result demo_result_def demo_state_def)
qed


lemma demo_process_root:
  "fst (processEntity demo_world (root_node ''r'') (snd (open_writer ''out.xml'' new_writer)) [])
     = Fulfilled demo_value"
  by (simp add: processEntity_def demo_world_def demo_manifest_def truthy_def demo_value_def
      open_writer_result writeMods_def extractModsElement_def demo_xml_def xml_decl_match_def
      newline_def js_space_def write_data_def new_writer_def collection_header_def root_node_def)

lemma demo2_traverse:
  "traverseBFS demo2_world ''r'' demo2_options [] [] (snd (open_writer ''out.xml'' new_writer))
     = Some demo2_state"
  by (simp add: traverseBFS_def initial_state_def root_node_def traverseLoop.simps processLevel.simps
     demo2_world_def demo_manifest_def demo2_options_def demo2_state_def demo2_writer_def demo_record_def demo_xml_def
     open_writer_result collection_header_def write_data_def new_writer_def newline_def
     extractCurrentLevel_def process_batch_def processEntity_def truthy_def writeMods_def extractModsElement_def
     xml_decl_match_def indent_lines_def addHierarchyMetadata_def add_id_attribute_def close_tag_match_def hierarchyNote_def
     handleResult_def trimEnd_def js_space_def show_nat.simps digit_char_def insert_commute)

lemma demo2_run:
  "exportRecursive demo2_world new_writer ''r'' ''out.xml'' demo2_options
     = Some (Inr demo2_result, Some (demo2_state\<lparr>writer := snd (close_writer demo2_writer)\<rparr>))"
proof -
  have "close_writer demo2_writer
          = (Inr (), demo2_writer\<lparr>stream := Some (the (stream demo2_writer) @ [''</modsCollection>'' @ newline])\<rparr>)"
    by (simp add: close_writer_def demo2_writer_def write_data_def)
  then show ?thesis
    using demo2_traverse
    by (simp add: exportRecursive_def open_writer_result demo2_result_def demo2_state_def)
qed


section \<open>Theorems: the recursive export\<close>

text \<open>
  C1. When \<open>exportRecursive\<close> returns a result, \<open>successCount + errorCount =
  totalEntities\<close> and \<open>incompleteCount \<le> successCount\<close>: \<open>successCount\<close> counts
  every node whose processing is fulfilled, the incomplete ones included, and
  \<open>errorCount\<close> is the length of the error list. The three classes (fulfilled and
  complete, incomplete, error) add up to the total; the three counts of the result add up
  to the total plus the incomplete count.
\<close>

theorem exportRecursive_counts:
  assumes "exportRecursive world w0 rootPI path options = Some (Inr r, s)"
  shows "r_successCount r + errorCount r = totalEntities r
         \<and> r_incompleteCount r \<le> r_successCount r
         \<and> errorCount r = length (r_errors r)"
proof -
  from assms obtain st where
    run: "traverseLoop options world
            (initial_state rootPI [] [] (snd (open_writer path w0))) = Some st"
    and r: "r = \<lparr>totalEntities = entityCount st, r_successCount = successCount st,
                  errorCount = length (errors st), r_incompleteCount = incompleteCount st,
                  outputPath = path, r_errors = errors st,
                  r_incompleteRecords = incompleteRecords st\<rparr>"
    by (auto simp: exportRecursive_def traverseBFS_def open_writer_result
        split: option.splits prod.splits sum.splits)
  have "successCount st + length (errors st) = entityCount st
         \<and> incompleteCount st \<le> successCount st"
    by (rule traverseLoop_counts [OF run]) (simp_all add: initial_state_def)
  with r show ?thesis by simp
qed

theorem exportRecursive_counts_witness:
  "exportRecursive demo_world new_writer ''r'' ''out.xml'' demo_options
     = Some (Inr demo_result, Some (demo_state\<lparr>writer := snd (close_writer demo_writer)\<rparr>))
   \<and> r_successCount demo_result + errorCount demo_result = totalEntities demo_result
   \<and> r_incompleteCount demo_result \<le> r_successCount demo_result"
  using exportRecursive_counts [OF demo_run] demo_run by simp

theorem counts_sum_counterexample:
  "exportRecursive demo_world new_writer ''r'' ''out.xml'' demo_options
     = Some (Inr demo_result, Some (demo_state\<lparr>writer := snd (close_writer demo_writer)\<rparr>))
   \<and> \<not> counts_sum_to_total demo_result"
  using demo_run by (simp add: counts_sum_to_total_def demo_result_def)

text \<open>
  C5. In every traversal that returns, the identifiers reported are pairwise different,
  they are exactly the visited set, and the queue is empty: every identifier was
  enqueued once and handled once. A child identifier that is already visited is not
  enqueued; one that is not visited is enqueued once and marked visited at that moment,
  so a second discovery by another parent changes nothing. Handling a node keeps the
  identifiers reported, pending and queued pairwise different and equal to the visited
  set.
\<close>

theorem identifier_enqueued_once:
  "(traverseBFS world rootPI opts errs ir w = Some st \<longrightarrow>
      distinct (map currentPI (progress st))
      \<and> visited st = set (map currentPI (progress st))
      \<and> queue st = [])
   \<and> (childPI \<in> visited s \<longrightarrow> enqueueChildren node [childPI] s = s)
   \<and> (childPI \<notin> visited s \<longrightarrow>
        queue (enqueueChildren node [childPI] s) =
          queue s @ [\<lparr>pi = childPI, depth = depth node + 1, parentPI = Some (pi node),
                      pathFromRoot = pathFromRoot node @ [childPI]\<rparr>]
        \<and> visited (enqueueChildren node [childPI] s) = insert childPI (visited s))
   \<and> enqueueChildren node2 [childPI] (enqueueChildren node [childPI] s)
        = enqueueChildren node [childPI] s
   \<and> (visit_inv (node # rest) s \<longrightarrow> visit_inv rest (handleResult opts node r s))"
proof -
  have global: "distinct (map currentPI (progress st))
      \<and> visited st = set (map currentPI (progress st)) \<and> queue st = []"
    if run: "traverseBFS world rootPI opts errs ir w = Some st"
  proof -
    from run have run': "traverseLoop opts world (initial_state rootPI errs ir w) = Some st"
      by (simp add: traverseBFS_def)
    have "visit_inv [] (initial_state rootPI errs ir w)"
      by (simp add: visit_inv_def initial_state_def root_node_def)
    with run' have "visit_inv [] st" by (rule traverseLoop_visit)
    moreover have "queue st = []" using run' by (rule traverseLoop_queue_empty)
    ultimately show ?thesis by (simp add: visit_inv_def)
  qed
  show ?thesis
    using global by (simp add: handleResult_visit)
qed

theorem identifier_enqueued_once_witness:
  "traverseBFS demo_world ''r'' demo_options [] [] (snd (open_writer ''out.xml'' new_writer))
     = Some demo_state
   \<and> map currentPI (progress demo_state) = [''r'', ''a'', ''b'']
   \<and> distinct (map currentPI (progress demo_state))
   \<and> visited demo_state = {''r'', ''a'', ''b''}
   \<and> ''r'' \<in> visited (initial_state ''r'' [] [] new_writer)
   \<and> enqueueChildren (root_node ''r'') [''r''] (initial_state ''r'' [] [] new_writer)
       = initial_state ''r'' [] [] new_writer
   \<and> ''a'' \<notin> visited (initial_state ''r'' [] [] new_writer)
   \<and> map pi (queue (enqueueChildren (root_node ''r'') [''a''] (initial_state ''r'' [] [] new_writer)))
       = [''r'', ''a'']
   \<and> visit_inv [root_node ''r''] ((initial_state ''r'' [] [] new_writer)\<lparr>queue := []\<rparr>)
   \<and> visit_inv [] (handleResult demo_options (root_node ''r'') (Fulfilled demo_value)
                      ((initial_state ''r'' [] [] new_writer)\<lparr>queue := []\<rparr>))"
proof -
  let ?s = "initial_state ''r'' [] [] new_writer"
  have inv: "visit_inv [root_node ''r''] (?s\<lparr>queue := []\<rparr>)"
    by (simp add: visit_inv_def initial_state_def root_node_def)
  have vis: "''r'' \<in> visited ?s" and nvis: "''a'' \<notin> visited ?s"
    by (simp_all add: initial_state_def)
  have q: "map pi (queue ?s) = [''r'']"
    by (simp add: initial_state_def root_node_def)
  have p: "map currentPI (progress demo_state) = [''r'', ''a'', ''b'']"
    and v: "visited demo_state = {''r'', ''a'', ''b''}"
    by (auto simp: demo_state_def)
  note first = identifier_enqueued_once [where world = demo_world and rootPI = "''r''"
        and opts = demo_options and errs = "[]" and ir = "[]"
        and w = "snd (open_writer ''out.xml'' new_writer)" and st = demo_state
        and childPI = "''r''" and s = ?s and node = "root_node ''r''"]
  note second = identifier_enqueued_once [where world = demo_world and rootPI = "''r''"
        and opts = demo_options and errs = "[]" and ir = "[]"
        and w = "snd (open_writer ''out.xml'' new_writer)" and st = demo_state
        and childPI = "''a''" and s = ?s and node = "root_node ''r''"]
  note third = identifier_enqueued_once [where world = demo_world and rootPI = "''r''"
        and opts = demo_options and errs = "[]" and ir = "[]"
        and w = "snd (open_writer ''out.xml'' new_writer)" and st = demo_state
        and s = "?s\<lparr>queue := []\<rparr>" and node = "root_node ''r''" and rest = "[]"
        and r = "Fulfilled demo_value"]
  from first demo_traverse have d: "distinct (map currentPI (progress demo_state))" by blast
  from first vis have same: "enqueueChildren (root_node ''r'') [''r''] ?s = ?s" by blast
  from second nvis q have pushed:
    "map pi (queue (enqueueChildren (root_node ''r'') [''a''] ?s)) = [''r'', ''a'']"
    by simp
  from third inv have kept: "visit_inv [] (handleResult demo_options (root_node ''r'')
      (Fulfilled demo_value) (?s\<lparr>queue := []\<rparr>))"
    by blast
  from demo_traverse p d v vis same nvis pushed inv kept show ?thesis by simp
qed

text \<open>
  C6. The queue starts with the root, at depth 0. Handling the result of a node appends
  to the queue only nodes whose depth is the node's depth plus one, whose parent is the
  node and whose path is the node's path extended by the child; it appends nothing when
  the node's depth has reached the maximum depth. In every traversal that returns, no
  reported node lies deeper than the maximum depth.
\<close>

theorem child_depth:
  "queue (initial_state rootPI errs ir w) = [root_node rootPI]
   \<and> depth (root_node rootPI) = 0
   \<and> (\<exists>new. queue (handleResult opts node r s) = queue s @ new
         \<and> (\<forall>c \<in> set new. depth c = depth node + 1 \<and> parentPI c = Some (pi node)
               \<and> pathFromRoot c = pathFromRoot node @ [pi c])
         \<and> (maxDepth opts \<le> depth node \<longrightarrow> new = []))
   \<and> (traverseBFS world rootPI opts errs ir w = Some st \<longrightarrow>
        (\<forall>ev \<in> set (progress st). ev_depth ev \<le> maxDepth opts))"
proof -
  have global: "\<forall>ev \<in> set (progress st). ev_depth ev \<le> maxDepth opts"
    if run: "traverseBFS world rootPI opts errs ir w = Some st"
  proof -
    from run have run': "traverseLoop opts world (initial_state rootPI errs ir w) = Some st"
      by (simp add: traverseBFS_def)
    have "depth_inv opts [] (initial_state rootPI errs ir w)"
      by (simp add: depth_inv_def initial_state_def root_node_def)
    with run' have "depth_inv opts [] st" by (rule traverseLoop_depth)
    then show ?thesis by (simp add: depth_inv_def)
  qed
  from handleResult_queue [of opts node r s] obtain new where
    "queue (handleResult opts node r s) = queue s @ new"
    "\<forall>c \<in> set new. depth c = depth node + 1 \<and> parentPI c = Some (pi node)
               \<and> pathFromRoot c = pathFromRoot node @ [pi c]"
    "maxDepth opts \<le> depth node \<longrightarrow> new = []"
    by blast
  then have step: "\<exists>new. queue (handleResult opts node r s) = queue s @ new
         \<and> (\<forall>c \<in> set new. depth c = depth node + 1 \<and> parentPI c = Some (pi node)
               \<and> pathFromRoot c = pathFromRoot node @ [pi c])
         \<and> (maxDepth opts \<le> depth node \<longrightarrow> new = [])"
    by blast
  show ?thesis
    using global step by (simp add: initial_state_def root_node_def)
qed

theorem child_depth_witness:
  "traverseBFS demo_world ''r'' demo_options [] [] (snd (open_writer ''out.xml'' new_writer))
     = Some demo_state
   \<and> map ev_depth (progress demo_state) = [0, 1, 1]
   \<and> maxDepth demo_options = 5
   \<and> map depth (queue (handleResult demo_options (root_node ''r'') (Fulfilled demo_value)
                          (initial_state ''r'' [] [] new_writer))) = [0, 1, 1]
   \<and> queue (handleResult \<lparr>maxDepth = 0, parallelBatchSize = 2\<rparr> (root_node ''r'')
               (Fulfilled demo_value) (initial_state ''r'' [] [] new_writer))
       = [root_node ''r'']"
proof -
  let ?s = "initial_state ''r'' [] [] new_writer"
  let ?flat = "\<lparr>maxDepth = 0, parallelBatchSize = 2\<rparr>"
  note deep = child_depth [where rootPI = "''r''" and errs = "[]" and ir = "[]"
      and w = "snd (open_writer ''out.xml'' new_writer)" and opts = demo_options
      and node = "root_node ''r''" and r = "Fulfilled demo_value"
      and s = ?s and world = demo_world and st = demo_state]
  note flat = child_depth [where rootPI = "''r''" and errs = "[]" and ir = "[]"
      and w = new_writer and opts = ?flat
      and node = "root_node ''r''" and r = "Fulfilled demo_value"
      and s = ?s and world = demo_world and st = demo_state]
  have q: "queue ?s = [root_node ''r'']" using deep by (simp add: initial_state_def)
  have lim: "maxDepth ?flat \<le> depth (root_node ''r'')" by (simp add: root_node_def)
  from flat lim q have none: "queue (handleResult ?flat (root_node ''r'') (Fulfilled demo_value) ?s)
       = [root_node ''r'']"
    by auto
  have evs: "map ev_depth (progress demo_state) = [0, 1, 1]"
    by (simp add: demo_state_def)
  have some: "map depth (queue (handleResult demo_options (root_node ''r'') (Fulfilled demo_value) ?s))
       = [0, 1, 1]"
    by (simp add: demo_options_def handleResult_def initial_state_def root_node_def demo_value_def)
  from demo_traverse evs some none show ?thesis by (simp add: demo_options_def)
qed

text \<open>
  C7. Handling a rejected node leaves the queue and the visited set as they were and
  appends the node's identifier and message to the errors; \<open>processEntity\<close> rejects
  with the failure's message when the manifest fetch or the export fails. Two fulfilled
  results with the same children, one incomplete and one not, leave the same queue and
  visited set, and the children of a fulfilled result are the manifest's children
  whether or not \<open>pinax.json\<close> is present. Whether the traversal, and with it
  \<open>exportRecursive\<close>, returns depends on the batch size alone, never on a node's
  failure: \<open>exportRecursive\<close> resolves with a result exactly when the batch size is
  positive (with a batch size of zero the batch loop does not advance). When it resolves,
  the queue is empty; every identifier that was enqueued, the root among them, has been
  handled and reported exactly once, and the total of the result is the number of
  reports; the error list of the result holds, for every reported node whose fetch or
  export failed, its identifier with the failure's message, and names reported nodes
  only; and for every reported node above the maximum depth that is not in the error
  list, incomplete or not, each child named by its manifest has been handled too.
\<close>

theorem failure_and_incomplete:
  "queue (handleResult opts node (Rejected e) s) = queue s
   \<and> visited (handleResult opts node (Rejected e) s) = visited s
   \<and> errors (handleResult opts node (Rejected e) s) = errors s @ [(pi node, e)]
   \<and> (hard_failure world (pi node) = Some e \<longrightarrow>
        fst (processEntity world node w1 ir1) = Rejected e)
   \<and> ((\<exists>st'. traverseBFS world rootPI opts errs ir w = Some st') = (0 < parallelBatchSize opts))
   \<and> (traverseBFS world rootPI opts errs ir w = Some st \<longrightarrow>
        queue st = []
        \<and> (\<forall>ev \<in> set (progress st). \<forall>msg.
              hard_failure world (currentPI ev) = Some msg \<longrightarrow>
              (currentPI ev, msg) \<in> set (errors st)))
   \<and> (children v = children v' \<longrightarrow>
        queue (handleResult opts node (Fulfilled v) s) = queue (handleResult opts node (Fulfilled v') s)
        \<and> visited (handleResult opts node (Fulfilled v) s)
            = visited (handleResult opts node (Fulfilled v') s))
   \<and> (fst (processEntity world node w1 ir1) = Fulfilled v \<longrightarrow>
        (\<exists>manifest. fetchManifest world (pi node) = Inr manifest
           \<and> children v = children_pi manifest
           \<and> isIncomplete v = (\<not> truthy (map_of (components manifest) ''pinax.json''))))
   \<and> ((\<exists>res fin. exportRecursive world w0 rootPI path opts = Some (Inr res, Some fin))
        = (0 < parallelBatchSize opts))
   \<and> (exportRecursive world w0 rootPI path opts = Some (Inr res, Some fin) \<longrightarrow>
        queue fin = [] \<and> rootPI \<in> visited fin
        \<and> visited fin = set (map currentPI (progress fin))
        \<and> distinct (map currentPI (progress fin))
        \<and> totalEntities res = length (progress fin)
        \<and> r_errors res = errors fin \<and> errorCount res = length (r_errors res)
        \<and> fst ` set (r_errors res) \<subseteq> set (map currentPI (progress fin))
        \<and> (\<forall>ev \<in> set (progress fin). \<forall>msg.
              hard_failure world (currentPI ev) = Some msg \<longrightarrow>
              (currentPI ev, msg) \<in> set (r_errors res))
        \<and> (\<forall>ev \<in> set (progress fin).
              ev_depth ev < maxDepth opts \<longrightarrow> currentPI ev \<notin> fst ` set (r_errors res) \<longrightarrow>
              (\<forall>manifest cs. fetchManifest world (currentPI ev) = Inr manifest \<longrightarrow>
                 children_pi manifest = Some cs \<longrightarrow>
                 set cs \<subseteq> set (map currentPI (progress fin)))))"
proof -
  have rejected: "queue (handleResult opts node (Rejected e) s) = queue s
      \<and> visited (handleResult opts node (Rejected e) s) = visited s
      \<and> errors (handleResult opts node (Rejected e) s) = errors s @ [(pi node, e)]"
    by (simp add: handleResult_def)
  have completes: "queue st = []
        \<and> (\<forall>ev \<in> set (progress st). \<forall>msg.
              hard_failure world (currentPI ev) = Some msg \<longrightarrow>
              (currentPI ev, msg) \<in> set (errors st))"
    if run: "traverseBFS world rootPI opts errs ir w = Some st"
  proof -
    from run have run': "traverseLoop opts world (initial_state rootPI errs ir w) = Some st"
      by (simp add: traverseBFS_def)
    have "error_inv world [] (initial_state rootPI errs ir w)"
      by (simp add: error_inv_def initial_state_def)
    with run' have "error_inv world [] st" by (rule traverseLoop_error_inv)
    moreover have "queue st = []" using run' by (rule traverseLoop_queue_empty)
    ultimately show ?thesis by (auto simp: error_inv_def)
  qed
  have same: "queue (handleResult opts node (Fulfilled v) s) = queue (handleResult opts node (Fulfilled v') s)
        \<and> visited (handleResult opts node (Fulfilled v) s)
            = visited (handleResult opts node (Fulfilled v') s)"
    if eq: "children v = children v'"
  proof -
    have "enqueued opts node (Fulfilled v) s = enqueued opts node (Fulfilled v') s"
      using eq by (auto simp: enqueued_def)
    then show ?thesis
      using handleResult_shape [of opts node "Fulfilled v" s]
        handleResult_shape [of opts node "Fulfilled v'" s]
      by simp
  qed
  have steps: "queue (handleResult opts node (Rejected e) s) = queue s
   \<and> visited (handleResult opts node (Rejected e) s) = visited s
   \<and> errors (handleResult opts node (Rejected e) s) = errors s @ [(pi node, e)]
   \<and> (hard_failure world (pi node) = Some e \<longrightarrow>
        fst (processEntity world node w1 ir1) = Rejected e)
   \<and> ((\<exists>st'. traverseBFS world rootPI opts errs ir w = Some st') = (0 < parallelBatchSize opts))
   \<and> (traverseBFS world rootPI opts errs ir w = Some st \<longrightarrow>
        queue st = []
        \<and> (\<forall>ev \<in> set (progress st). \<forall>msg.
              hard_failure world (currentPI ev) = Some msg \<longrightarrow>
              (currentPI ev, msg) \<in> set (errors st)))
   \<and> (children v = children v' \<longrightarrow>
        queue (handleResult opts node (Fulfilled v) s) = queue (handleResult opts node (Fulfilled v') s)
        \<and> visited (handleResult opts node (Fulfilled v) s)
            = visited (handleResult opts node (Fulfilled v') s))
   \<and> (fst (processEntity world node w1 ir1) = Fulfilled v \<longrightarrow>
        (\<exists>manifest. fetchManifest world (pi node) = Inr manifest
           \<and> children v = children_pi manifest
           \<and> isIncomplete v = (\<not> truthy (map_of (components manifest) ''pinax.json''))))"
    using rejected completes same processEntity_hard_failure [of world node e w1 ir1]
      processEntity_fulfilled [of world node w1 ir1 v]
      traverseBFS_returns_iff [of world rootPI opts errs ir w]
    by blast
  have returns: "(\<exists>res fin. exportRecursive world w0 rootPI path opts = Some (Inr res, Some fin))
        = (0 < parallelBatchSize opts)"
    by (rule exportRecursive_returns_iff)
  have summary: "exportRecursive world w0 rootPI path opts = Some (Inr res, Some fin) \<longrightarrow>
        queue fin = [] \<and> rootPI \<in> visited fin
        \<and> visited fin = set (map currentPI (progress fin))
        \<and> distinct (map currentPI (progress fin))
        \<and> totalEntities res = length (progress fin)
        \<and> r_errors res = errors fin \<and> errorCount res = length (r_errors res)
        \<and> fst ` set (r_errors res) \<subseteq> set (map currentPI (progress fin))
        \<and> (\<forall>ev \<in> set (progress fin). \<forall>msg.
              hard_failure world (currentPI ev) = Some msg \<longrightarrow>
              (currentPI ev, msg) \<in> set (r_errors res))
        \<and> (\<forall>ev \<in> set (progress fin).
              ev_depth ev < maxDepth opts \<longrightarrow> currentPI ev \<notin> fst ` set (r_errors res) \<longrightarrow>
              (\<forall>manifest cs. fetchManifest world (currentPI ev) = Inr manifest \<longrightarrow>
                 children_pi manifest = Some cs \<longrightarrow>
                 set cs \<subseteq> set (map currentPI (progress fin))))"
    by (rule impI) (rule exportRecursive_summary)
  from steps returns summary show ?thesis by (elim conjE, intro conjI) assumption+
qed

theorem failure_and_incomplete_witness:
  "0 < parallelBatchSize demo_options
   \<and> traverseBFS demo_world ''r'' demo_options [] [] (snd (open_writer ''out.xml'' new_writer))
       = Some demo_state
   \<and> hard_failure demo_world ''b'' = Some ''Failed to fetch manifest: 404 Not Found''
   \<and> fst (processEntity demo_world (root_node ''b'') (snd (open_writer ''out.xml'' new_writer)) [])
       = Rejected ''Failed to fetch manifest: 404 Not Found''
   \<and> (''b'', ''Failed to fetch manifest: 404 Not Found'') \<in> set (errors demo_state)
   \<and> queue demo_state = []
   \<and> fst (processEntity demo_world (root_node ''r'') (snd (open_writer ''out.xml'' new_writer)) [])
       = Fulfilled demo_value
   \<and> isIncomplete demo_value
   \<and> children demo_value = children (demo_value\<lparr>isIncomplete := False\<rparr>)
   \<and> queue (handleResult demo_options (root_node ''r'') (Fulfilled demo_value)
              (initial_state ''r'' [] [] new_writer))
       = queue (handleResult demo_options (root_node ''r'')
                  (Fulfilled (demo_value\<lparr>isIncomplete := False\<rparr>))
                  (initial_state ''r'' [] [] new_writer))
   \<and> map pi (queue (handleResult demo_options (root_node ''r'') (Fulfilled demo_value)
                       (initial_state ''r'' [] [] new_writer))) = [''r'', ''a'', ''b'']
   \<and> 0 < parallelBatchSize demo2_options
   \<and> exportRecursive demo2_world new_writer ''r'' ''out.xml'' demo2_options
       = Some (Inr demo2_result, Some (demo2_state\<lparr>writer := snd (close_writer demo2_writer)\<rparr>))
   \<and> map currentPI (progress demo2_state) = [''r'', ''b'', ''a'', ''c'']
   \<and> hard_failure demo2_world ''b'' = Some ''Failed to fetch manifest: 404 Not Found''
   \<and> r_errors demo2_result = [(''b'', ''Failed to fetch manifest: 404 Not Found'')]
   \<and> (''b'', ''Failed to fetch manifest: 404 Not Found'') \<in> set (r_errors demo2_result)
   \<and> errorCount demo2_result = 1
   \<and> totalEntities demo2_result = 4
   \<and> fetchManifest demo2_world ''a'' = Inr (demo_manifest ''a'' [(''pinax.json'', ''c1'')] [''c''])
   \<and> ''a'' \<notin> fst ` set (r_errors demo2_result)
   \<and> ''c'' \<in> set (map currentPI (progress demo2_state))"
proof -
  let ?s = "initial_state ''r'' [] [] new_writer"
  let ?w = "snd (open_writer ''out.xml'' new_writer)"
  let ?msg = "''Failed to fetch manifest: 404 Not Found''"
  note failing = failure_and_incomplete [where opts = demo_options and node = "root_node ''b''"
      and e = ?msg and s = ?s and world = demo_world and rootPI = "''r''"
      and errs = "[]" and ir = "[]" and w = ?w and st = demo_state and ?w1.0 = ?w and ?ir1.0 = "[]"]
  note incomplete = failure_and_incomplete [where opts = demo_options and node = "root_node ''r''"
      and s = ?s and world = demo_world and rootPI = "''r''"
      and errs = "[]" and ir = "[]" and w = ?w and st = demo_state and ?w1.0 = ?w and ?ir1.0 = "[]"
      and v = demo_value and v' = "demo_value\<lparr>isIncomplete := False\<rparr>"]
  have bs: "0 < parallelBatchSize demo_options" by (simp add: demo_options_def)
  have hf: "hard_failure demo_world (pi (root_node ''b'')) = Some ?msg"
    by (simp add: hard_failure_def demo_world_def root_node_def)
  note on_failure = failing [THEN conjunct2, THEN conjunct2, THEN conjunct2, THEN conjunct1]
  note on_return = failing [THEN conjunct2, THEN conjunct2, THEN conjunct2, THEN conjunct2,
      THEN conjunct2, THEN conjunct1]
  note on_children = incomplete [THEN conjunct2, THEN conjunct2, THEN conjunct2, THEN conjunct2,
      THEN conjunct2, THEN conjunct2, THEN conjunct1]
  from on_failure hf have rej: "fst (processEntity demo_world (root_node ''b'') ?w []) = Rejected ?msg"
    by (rule mp)
  have ev: "currentPI (progress demo_state ! 2) = ''b''" and mem: "progress demo_state ! 2 \<in> set (progress demo_state)"
    by (simp_all add: demo_state_def)
  from on_return demo_traverse have rec: "queue demo_state = []
        \<and> (\<forall>ev \<in> set (progress demo_state). \<forall>msg.
              hard_failure demo_world (currentPI ev) = Some msg \<longrightarrow>
              (currentPI ev, msg) \<in> set (errors demo_state))"
    by (rule mp)
  with hf ev mem have err: "(''b'', ?msg) \<in> set (errors demo_state)"
    by (auto simp: root_node_def)
  have inc: "isIncomplete demo_value" and ch: "children demo_value = children (demo_value\<lparr>isIncomplete := False\<rparr>)"
    by (simp_all add: demo_value_def)
  from on_children ch have same: "queue (handleResult demo_options (root_node ''r'') (Fulfilled demo_value) ?s)
       = queue (handleResult demo_options (root_node ''r'')
                  (Fulfilled (demo_value\<lparr>isIncomplete := False\<rparr>)) ?s)"
    by (rule mp [THEN conjunct1])
  have q: "map pi (queue (handleResult demo_options (root_node ''r'') (Fulfilled demo_value) ?s))
             = [''r'', ''a'', ''b'']"
    by (simp add: demo_options_def handleResult_def initial_state_def root_node_def demo_value_def)
  from bs demo_traverse hf rej err rec demo_process_root inc ch same q have first: "0 < parallelBatchSize demo_options
   \<and> traverseBFS demo_world ''r'' demo_options [] [] (snd (open_writer ''out.xml'' new_writer))
       = Some demo_state
   \<and> hard_failure demo_world ''b'' = Some ''Failed to fetch manifest: 404 Not Found''
   \<and> fst (processEntity demo_world (root_node ''b'') (snd (open_writer ''out.xml'' new_writer)) [])
       = Rejected ''Failed to fetch manifest: 404 Not Found''
   \<and> (''b'', ''Failed to fetch manifest: 404 Not Found'') \<in> set (errors demo_state)
   \<and> queue demo_state = []
   \<and> fst (processEntity demo_world (root_node ''r'') (snd (open_writer ''out.xml'' new_writer)) [])
       = Fulfilled demo_value
   \<and> isIncomplete demo_value
   \<and> children demo_value = children (demo_value\<lparr>isIncomplete := False\<rparr>)
   \<and> queue (handleResult demo_options (root_node ''r'') (Fulfilled demo_value)
              (initial_state ''r'' [] [] new_writer))
       = queue (handleResult demo_options (root_node ''r'')
                  (Fulfilled (demo_value\<lparr>isIncomplete := False\<rparr>))
                  (initial_state ''r'' [] [] new_writer))
   \<and> map pi (queue (handleResult demo_options (root_node ''r'') (Fulfilled demo_value)
                       (initial_state ''r'' [] [] new_writer))) = [''r'', ''a'', ''b'']"
    by (simp add: root_node_def)
  let ?fin = "demo2_state\<lparr>writer := snd (close_writer demo2_writer)\<rparr>"
  note summary = failure_and_incomplete [where world = demo2_world and ?w0.0 = new_writer
      and rootPI = "''r''" and path = "''out.xml''" and opts = demo2_options
      and res = demo2_result and fin = ?fin]
  have bs2: "0 < parallelBatchSize demo2_options" by (simp add: demo2_options_def)
  have pr: "progress ?fin = progress demo2_state" by simp
  have reported: "map currentPI (progress demo2_state) = [''r'', ''b'', ''a'', ''c'']"
    by (simp add: demo2_state_def)
  have evb: "progress demo2_state ! 1 \<in> set (progress demo2_state)"
    and evb_pi: "currentPI (progress demo2_state ! 1) = ''b''"
    and eva: "progress demo2_state ! 2 \<in> set (progress demo2_state)"
    and eva_pi: "currentPI (progress demo2_state ! 2) = ''a''"
    and eva_depth: "ev_depth (progress demo2_state ! 2) < maxDepth demo2_options"
    by (simp_all add: demo2_state_def demo2_options_def)
  have hfb: "hard_failure demo2_world ''b'' = Some ?msg"
    by (simp add: hard_failure_def demo2_world_def)
  have fa: "fetchManifest demo2_world ''a'' = Inr (demo_manifest ''a'' [(''pinax.json'', ''c1'')] [''c''])"
    by (simp add: demo2_world_def)
  have kids: "children_pi (demo_manifest ''a'' [(''pinax.json'', ''c1'')] [''c'']) = Some [''c'']"
    by (simp add: demo_manifest_def)
  have errs2: "r_errors demo2_result = [(''b'', ?msg)]" and count2: "errorCount demo2_result = 1"
    and total2: "totalEntities demo2_result = 4"
    by (simp_all add: demo2_result_def)
  have nota: "''a'' \<notin> fst ` set (r_errors demo2_result)" by (simp add: errs2)
  from summary demo2_run have all: "(\<forall>ev \<in> set (progress ?fin). \<forall>msg.
              hard_failure demo2_world (currentPI ev) = Some msg \<longrightarrow>
              (currentPI ev, msg) \<in> set (r_errors demo2_result))
        \<and> (\<forall>ev \<in> set (progress ?fin).
              ev_depth ev < maxDepth demo2_options \<longrightarrow>
              currentPI ev \<notin> fst ` set (r_errors demo2_result) \<longrightarrow>
              (\<forall>manifest cs. fetchManifest demo2_world (currentPI ev) = Inr manifest \<longrightarrow>
                 children_pi manifest = Some cs \<longrightarrow>
                 set cs \<subseteq> set (map currentPI (progress ?fin))))"
    by blast
  from all evb evb_pi hfb have recorded: "(''b'', ?msg) \<in> set (r_errors demo2_result)"
    unfolding pr by metis
  from all eva eva_pi eva_depth nota fa kids
  have "set [''c''] \<subseteq> set (map currentPI (progress demo2_state))"
    unfolding pr by metis
  then have child: "''c'' \<in> set (map currentPI (progress demo2_state))" by simp
  from first bs2 demo2_run reported hfb errs2 recorded count2 total2 fa nota child
  show ?thesis by (elim conjE, intro conjI) assumption+
qed

text \<open>
  C8. When \<open>exportRecursive\<close> returns a result, the sink holds the header, one record
  per counted success and the footer. The success count of the result is the number of
  fulfilled nodes, that is the number of complete successes plus the number of
  incomplete ones, and with the error count it makes up the total. \<open>writeMods\<close> is
  called at least once per fulfilled node, and exactly once per fulfilled node and not at
  all for any other when every exported document holds a \<open><mods\<close> element, as the
  XML generator's output does. A \<open>processEntity\<close> call that rejects leaves the sink
  as it was.
\<close>

theorem writes_equal_successes:
  assumes run: "exportRecursive world w0 rootPI path opts = Some (Inr r, Some st)"
  shows "(\<exists>recs. stream (writer st)
                  = Some (collection_header @ recs @ [''</modsCollection>'' @ newline])
            \<and> length recs = r_successCount r)
         \<and> r_incompleteCount r \<le> r_successCount r
         \<and> r_successCount r = (r_successCount r - r_incompleteCount r) + r_incompleteCount r
         \<and> r_successCount r + errorCount r = totalEntities r
         \<and> writeModsCalls w0 + r_successCount r \<le> writeModsCalls (writer st)
         \<and> (serializes_mods world \<longrightarrow>
               writeModsCalls (writer st) = writeModsCalls w0 + r_successCount r)
         \<and> (\<forall>node w ir. is_fulfilled (fst (processEntity world node w ir))
               \<or> stream (fst (snd (processEntity world node w ir))) = stream w)"
proof -
  let ?w1 = "w0\<lparr>stream := Some collection_header, isOpen := True\<rparr>"
  from exportRecursive_Some [OF run] obtain st0 where
    loop: "traverseLoop opts world (initial_state rootPI [] [] ?w1) = Some st0"
    and st: "st = st0\<lparr>writer := snd (close_writer (writer st0))\<rparr>"
    and r: "r = \<lparr>totalEntities = entityCount st0, r_successCount = successCount st0,
                  errorCount = length (errors st0), r_incompleteCount = incompleteCount st0,
                  outputPath = path, r_errors = errors st0,
                  r_incompleteRecords = incompleteRecords st0\<rparr>"
    by blast
  have "write_inv world collection_header (writeModsCalls w0) (initial_state rootPI [] [] ?w1)"
    by (simp add: write_inv_def initial_state_def)
  with loop have "write_inv world collection_header (writeModsCalls w0) st0"
    by (rule traverseLoop_write)
  then obtain recs where
    s0: "stream (writer st0) = Some (collection_header @ recs)"
    and l0: "length recs = successCount st0"
    and c0: "writeModsCalls w0 + successCount st0 \<le> writeModsCalls (writer st0)"
    and c0': "serializes_mods world \<longrightarrow>
                writeModsCalls (writer st0) = writeModsCalls w0 + successCount st0"
    by (auto simp: write_inv_def)
  have closed: "snd (close_writer (writer st0)) =
      (writer st0)\<lparr>stream := Some (collection_header @ recs @ [''</modsCollection>'' @ newline])\<rparr>"
    using s0 by (simp add: close_writer_def write_data_def)
  have counts: "successCount st0 + length (errors st0) = entityCount st0
         \<and> incompleteCount st0 \<le> successCount st0"
    by (rule traverseLoop_counts [OF loop]) (simp_all add: initial_state_def)
  have sink: "\<forall>node w ir. is_fulfilled (fst (processEntity world node w ir))
               \<or> stream (fst (snd (processEntity world node w ir))) = stream w"
    using processEntity_rejected_sink by blast
  have "\<exists>recs. stream (writer st)
                  = Some (collection_header @ recs @ [''</modsCollection>'' @ newline])
            \<and> length recs = r_successCount r"
    using st r closed l0 by (intro exI [of _ recs]) simp
  then show ?thesis
    using st r closed c0 c0' counts sink by simp
qed

theorem writes_equal_successes_witness:
  "exportRecursive demo_world new_writer ''r'' ''out.xml'' demo_options
     = Some (Inr demo_result, Some (demo_state\<lparr>writer := snd (close_writer demo_writer)\<rparr>))
   \<and> writeModsCalls (snd (close_writer demo_writer)) = 2
   \<and> r_successCount demo_result = 2
   \<and> r_incompleteCount demo_result = 1
   \<and> errorCount demo_result = 1"
proof -
  have ser: "serializes_mods demo_world"
    by (simp add: serializes_mods_def demo_world_def demo_xml_def xml_decl_match_def newline_def
        js_space_def)
  show ?thesis
    using writes_equal_successes [OF demo_run] demo_run ser
    by (simp add: demo_result_def new_writer_def)
qed

end
